theory Spec2Isabelle
  imports Main
begin

section \<open>The platform's URL objects\<close>

text \<open>
  \<^verbatim>\<open>new URL(s)\<close> is the runtime's URL parser, not code of the crawler. It is taken as a
  parameter: a parser maps a string to a URL object, or to \<open>None\<close> where \<^verbatim>\<open>new URL\<close>
  throws. Of a URL object the crawler reads \<^verbatim>\<open>origin\<close>, \<^verbatim>\<open>pathname\<close> and \<^verbatim>\<open>href\<close>, and it
  assigns \<^verbatim>\<open>hash = ""\<close>. The serialisation \<^verbatim>\<open>href\<close> ends with \<^verbatim>\<open>#\<close> and the fragment when
  the fragment is present; assigning the empty string to \<^verbatim>\<open>hash\<close> removes the fragment.
  (For a URL with an opaque path, such as a \<^verbatim>\<open>data:\<close> URL, that assignment may also drop
  trailing spaces of the path; such URLs have no origin equal to a base origin, and this is
  not modelled.)
\<close>

record URL =
  origin :: string
  pathname :: string
  href_without_fragment :: string
  fragment :: "string option"

type_synonym url_parser = "string \<Rightarrow> URL option"

definition href :: "URL \<Rightarrow> string" where
  "href u = href_without_fragment u @ (case fragment u of None \<Rightarrow> [] | Some f \<Rightarrow> CHR ''#'' # f)"

definition clear_hash :: "URL \<Rightarrow> URL" where
  "clear_hash u = u\<lparr>fragment := None\<rparr>"

section \<open>URL normaliser and classifier\<close>

definition normalizeUrl :: "url_parser \<Rightarrow> string \<Rightarrow> string" where
  "normalizeUrl P s = (case P s of None \<Rightarrow> s | Some parsed \<Rightarrow> href (clear_hash parsed))"

definition isInternalUrl :: "url_parser \<Rightarrow> string \<Rightarrow> string \<Rightarrow> bool" where
  "isInternalUrl P base s = (case P s of None \<Rightarrow> False | Some u \<Rightarrow> origin u = base)"

definition lower_char :: "char \<Rightarrow> char" where
  "lower_char c = (let n = (of_char c :: nat) in if 65 \<le> n \<and> n \<le> 90 then char_of (n + 32) else c)"

text \<open>\<^verbatim>\<open>toLowerCase\<close> on a pathname: a serialised path is ASCII, so only A to Z change.\<close>

definition toLowerCase :: "string \<Rightarrow> string" where
  "toLowerCase s = map lower_char s"

definition endsWith :: "string \<Rightarrow> string \<Rightarrow> bool" where
  "endsWith s ext \<longleftrightarrow> length ext \<le> length s \<and> drop (length s - length ext) s = ext"

definition fileExtensions :: "string list" where
  "fileExtensions =
    [''.pdf'', ''.zip'', ''.doc'', ''.docx'', ''.xls'', ''.xlsx'', ''.ppt'', ''.pptx'',
     ''.jpg'', ''.jpeg'', ''.png'', ''.gif'', ''.svg'', ''.webp'', ''.ico'',
     ''.mp4'', ''.avi'', ''.mov'', ''.wmv'', ''.mp3'', ''.wav'',
     ''.xml'', ''.json'', ''.csv'', ''.txt'',
     ''.dmg'', ''.exe'', ''.pkg'', ''.deb'', ''.rpm'']"

definition isWebPage :: "url_parser \<Rightarrow> string \<Rightarrow> bool" where
  "isWebPage P s =
     (case P s of
        None \<Rightarrow> True
      | Some u \<Rightarrow> \<not> list_ex (\<lambda>ext. endsWith (toLowerCase (pathname u)) ext) fileExtensions)"

section \<open>Analysis results\<close>

text \<open>
  An axe violation's \<^verbatim>\<open>impact\<close> is a string, or null, or undefined. Of the axe
  results only \<^verbatim>\<open>violations\<close> is read. Lighthouse scores are the runtime's floating-point
  numbers; their type is the parameter \<open>'n\<close>.
\<close>

record node =
  html :: string
  failureSummary :: "string option"

datatype impact_value = Impact string | Null | Undefined

record violation =
  rule_id :: string
  impact :: impact_value
  help_text :: string
  description :: string
  helpUrl :: string
  nodes :: "node list"

record axe_results =
  violations :: "violation list"

record 'n audit =
  title :: string
  audit_description :: "string option"
  audit_score :: "'n option"
  scoreDisplayMode :: string

record 'n lighthouse_result =
  accessibility_score :: "'n option"
  audits :: "'n audit list"

record 'n page_result =
  url :: string
  axeResults :: axe_results
  lighthouseResults :: "'n lighthouse_result option"
  timestamp :: string

section \<open>The crawler's state and its environment\<close>

datatype browser_handle = Browser
datatype context_handle = BrowserContext

text \<open>Lines written to the console: the progress line of a reservation and the two error lines.\<close>

datatype log_event =
    Crawling string nat int
  | LighthouseError string
  | ErrorCrawling string

record 'n crawler =
  browser :: "browser_handle option"
  ctx :: "context_handle option"
  visitedUrls :: "string list"
  baseUrl :: string
  maxPages :: int
  results :: "'n page_result list"
  cdpPort :: nat
  console :: "log_event list"

text \<open>
  What the browser and the engines do for one page: each awaited call either throws or
  returns. A canonical URL is loaded at most once in a session, so the behaviour is a
  function of the URL.
\<close>

datatype 'n lighthouse_outcome =
    LighthouseThrows
  | LighthouseReturns "'n lighthouse_result option"

record 'n page_behaviour =
  newPage_throws :: bool
  goto_throws :: bool
  axe_analyze :: "axe_results option"
  lighthouse_run :: "'n lighthouse_outcome"
  clock_iso :: string
  anchor_hrefs :: "string list option"
  page_close_throws :: bool

type_synonym 'n web = "string \<Rightarrow> 'n page_behaviour"

text \<open>\<^verbatim>\<open>Set.prototype.add\<close>: a set keeps insertion order and ignores a present element.\<close>

definition set_add :: "string list \<Rightarrow> string \<Rightarrow> string list" where
  "set_add xs x = (if x \<in> set xs then xs else xs @ [x])"

definition budget_reached :: "'n crawler \<Rightarrow> bool" where
  "budget_reached st \<longleftrightarrow> maxPages st \<le> int (length (visitedUrls st))"

definition reserve :: "string \<Rightarrow> 'n crawler \<Rightarrow> 'n crawler" where
  "reserve n st =
     (let vs = set_add (visitedUrls st) n
      in st\<lparr>visitedUrls := vs, console := console st @ [Crawling n (length vs) (maxPages st)]\<rparr>)"

definition log_error :: "string \<Rightarrow> 'n crawler \<Rightarrow> 'n crawler" where
  "log_error n st = st\<lparr>console := console st @ [ErrorCrawling n]\<rparr>"

definition startsWith :: "string \<Rightarrow> string \<Rightarrow> bool" where
  "startsWith s p \<longleftrightarrow> take (length p) s = p"

definition extractLinks :: "'n page_behaviour \<Rightarrow> string list option" where
  "extractLinks page = map_option (filter (\<lambda>h. startsWith h ''http'')) (anchor_hrefs page)"

text \<open>
  The part of the \<^verbatim>\<open>try\<close> block up to \<^verbatim>\<open>results.push\<close>: \<open>None\<close> when \<^verbatim>\<open>newPage\<close>, \<^verbatim>\<open>goto\<close>
  or the axe analysis throws; a Lighthouse failure is caught, logged and leaves null.
\<close>

definition analyse_page :: "'n page_behaviour \<Rightarrow> string \<Rightarrow> 'n crawler \<Rightarrow> 'n crawler option" where
  "analyse_page page n st =
     (if newPage_throws page \<or> goto_throws page then None
      else case axe_analyze page of
        None \<Rightarrow> None
      | Some axe \<Rightarrow>
          (case lighthouse_run page of
             LighthouseThrows \<Rightarrow>
               Some (st\<lparr>results := results st @
                           [\<lparr>url = n, axeResults = axe, lighthouseResults = None, timestamp = clock_iso page\<rparr>],
                        console := console st @ [LighthouseError n]\<rparr>)
           | LighthouseReturns lhr \<Rightarrow>
               Some (st\<lparr>results := results st @
                           [\<lparr>url = n, axeResults = axe, lighthouseResults = lhr, timestamp = clock_iso page\<rparr>]\<rparr>)))"

function crawl :: "url_parser \<Rightarrow> 'n web \<Rightarrow> string \<Rightarrow> 'n crawler \<Rightarrow> 'n crawler"
  and crawl_links :: "url_parser \<Rightarrow> 'n web \<Rightarrow> string list \<Rightarrow> 'n crawler \<Rightarrow> 'n crawler"
where
  "crawl P W u st =
     (if browser st = None \<or> ctx st = None \<or> budget_reached st then st
      else if normalizeUrl P u \<in> set (visitedUrls st)
              \<or> \<not> isInternalUrl P (baseUrl st) (normalizeUrl P u)
              \<or> \<not> isWebPage P (normalizeUrl P u) then st
      else case analyse_page (W (normalizeUrl P u)) (normalizeUrl P u) (reserve (normalizeUrl P u) st) of
        None \<Rightarrow> log_error (normalizeUrl P u) (reserve (normalizeUrl P u) st)
      | Some st2 \<Rightarrow>
          if \<not> budget_reached st2 then
            (case extractLinks (W (normalizeUrl P u)) of
               None \<Rightarrow> log_error (normalizeUrl P u) st2
             | Some links \<Rightarrow>
                 if page_close_throws (W (normalizeUrl P u)) then log_error (normalizeUrl P u) st2
                 else crawl_links P W links st2)
          else if page_close_throws (W (normalizeUrl P u)) then log_error (normalizeUrl P u) st2
          else st2)"
| "crawl_links P W [] st = st"
| "crawl_links P W (link # links) st =
     (if budget_reached st then st else crawl_links P W links (crawl P W link st))"
  by pat_completeness auto

section \<open>Termination of the traversal\<close>

lemma length_set_add: "length xs \<le> length (set_add xs x)"
  by (simp add: set_add_def)

lemma analyse_page_keeps:
  "analyse_page page n st = Some st2 \<Longrightarrow> visitedUrls st2 = visitedUrls st \<and> maxPages st2 = maxPages st"
  by (auto simp: analyse_page_def split: if_splits option.splits lighthouse_outcome.splits)

lemma reserve_keeps: "maxPages (reserve n st) = maxPages st"
  by (simp add: reserve_def Let_def)

lemma reserve_visited: "visitedUrls (reserve n st) = set_add (visitedUrls st) n"
  by (simp add: reserve_def Let_def)

lemma log_error_keeps: "visitedUrls (log_error n st) = visitedUrls st" "maxPages (log_error n st) = maxPages st"
  by (simp_all add: log_error_def)

lemma crawl_dom_mono:
  "crawl_crawl_links_dom (Inl (P, W, u, st)) \<Longrightarrow>
     maxPages (crawl P W u st) = maxPages st \<and> length (visitedUrls st) \<le> length (visitedUrls (crawl P W u st))"
  "crawl_crawl_links_dom (Inr (P, W, ls, st)) \<Longrightarrow>
     maxPages (crawl_links P W ls st) = maxPages st \<and> length (visitedUrls st) \<le> length (visitedUrls (crawl_links P W ls st))"
proof (induct rule: crawl_crawl_links.pinduct)
  case (1 P W u st)
  let ?n = "normalizeUrl P u"
  note eq = crawl.psimps [OF 1(1)]
  show ?case
  proof (cases "browser st = None \<or> ctx st = None \<or> budget_reached st
                \<or> ?n \<in> set (visitedUrls st) \<or> \<not> isInternalUrl P (baseUrl st) ?n \<or> \<not> isWebPage P ?n")
    case True
    then have "crawl P W u st = st" by (auto simp: eq)
    then show ?thesis by simp
  next
    case False
    then have go: "browser st \<noteq> None" "ctx st \<noteq> None" "\<not> budget_reached st"
      "?n \<notin> set (visitedUrls st)" "isInternalUrl P (baseUrl st) ?n" "isWebPage P ?n"
      by auto
    show ?thesis
    proof (cases "analyse_page (W ?n) ?n (reserve ?n st)")
      case None
      with go have "crawl P W u st = log_error ?n (reserve ?n st)" by (auto simp: eq)
      then show ?thesis by (simp add: log_error_keeps reserve_keeps reserve_visited length_set_add)
    next
      case (Some st2)
      from analyse_page_keeps [OF Some]
      have v: "visitedUrls st2 = set_add (visitedUrls st) ?n" and m: "maxPages st2 = maxPages st"
        by (simp_all add: reserve_keeps reserve_visited)
      have base: "maxPages st2 = maxPages st \<and> length (visitedUrls st) \<le> length (visitedUrls st2)"
        by (simp add: v m length_set_add)
      consider (stop) "crawl P W u st = st2" | (err) "crawl P W u st = log_error ?n st2"
        | (rec) links where "\<not> budget_reached st2" "extractLinks (W ?n) = Some links"
            "\<not> page_close_throws (W ?n)" "crawl P W u st = crawl_links P W links st2"
      proof -
        have tail: "crawl P W u st =
          (if \<not> budget_reached st2 then
            (case extractLinks (W ?n) of
               None \<Rightarrow> log_error ?n st2
             | Some links \<Rightarrow>
                 if page_close_throws (W ?n) then log_error ?n st2
                 else crawl_links P W links st2)
          else if page_close_throws (W ?n) then log_error ?n st2
          else st2)"
          using go Some by (auto simp: eq)
        show ?thesis
          by (cases "budget_reached st2"; cases "extractLinks (W ?n)"; cases "page_close_throws (W ?n)")
             (use tail that in auto)
      qed
      then show ?thesis
      proof cases
        case stop
        with base show ?thesis by simp
      next
        case err
        with base show ?thesis by (simp add: log_error_keeps)
      next
        case rec
        from go Some rec(1,2,3)
        have "maxPages (crawl_links P W links st2) = maxPages st2 \<and>
              length (visitedUrls st2) \<le> length (visitedUrls (crawl_links P W links st2))"
          by (intro 1(2)) auto
        with base rec(4) show ?thesis by simp
      qed
    qed
  qed
next
  case (2 P W st)
  then show ?case by (simp add: crawl_links.psimps)
next
  case (3 P W link links st)
  then show ?case by (auto simp: crawl_links.psimps)
qed

termination crawl
  apply (relation "inv_image (less_than <*lex*> less_than)
         (\<lambda>x. case x of
            Inl (P, W, u, st) \<Rightarrow> (nat (maxPages st - int (length (visitedUrls st))), 0)
          | Inr (P, W, ls, st) \<Rightarrow> (nat (maxPages st - int (length (visitedUrls st))), Suc (length ls)))")
     apply (intro wf_inv_image wf_lex_prod wf_less_than)
  subgoal for P W u st st2 links
    by (auto simp: budget_reached_def reserve_visited reserve_keeps set_add_def dest!: analyse_page_keeps)
  subgoal by simp
  subgoal for P W link links st
    using crawl_dom_mono(1) [of P W link st] by auto
  done


section \<open>Construction, launch and cleanup\<close>

datatype thrown = InvalidURL | LaunchFailed | ContextCloseFailed | BrowserCloseFailed

text \<open>The constructor throws where \<^verbatim>\<open>new URL(startUrl)\<close> throws.\<close>

definition new_crawler :: "url_parser \<Rightarrow> string \<Rightarrow> int \<Rightarrow> thrown + 'n crawler" where
  "new_crawler P startUrl m =
     (case P startUrl of
        None \<Rightarrow> Inl InvalidURL
      | Some u \<Rightarrow>
          Inr \<lparr>browser = None, ctx = None, visitedUrls = [], baseUrl = origin u, maxPages = m,
               results = [], cdpPort = 9222, console = []\<rparr>)"

datatype launch_outcome = LaunchThrows | NewContextThrows | Launched

definition initialize :: "launch_outcome \<Rightarrow> 'n crawler \<Rightarrow> thrown + 'n crawler" where
  "initialize l st =
     (case l of
        LaunchThrows \<Rightarrow> Inl LaunchFailed
      | NewContextThrows \<Rightarrow> Inl LaunchFailed
      | Launched \<Rightarrow> Inr (st\<lparr>browser := Some Browser, ctx := Some BrowserContext\<rparr>))"

text \<open>
  \<^verbatim>\<open>close\<close> awaits \<^verbatim>\<open>context.close()\<close> and then \<^verbatim>\<open>browser.close()\<close>, with no handler
  around either. The result lists the close calls made, in order, and the exception that
  leaves \<^verbatim>\<open>close\<close>, if any. Nothing is written to the console.
\<close>

record cleanup_behaviour =
  context_close_throws :: bool
  browser_close_throws :: bool

datatype cleanup_call = CloseContext | CloseBrowser

definition close :: "cleanup_behaviour \<Rightarrow> 'n crawler \<Rightarrow> cleanup_call list \<times> thrown option" where
  "close B st =
     (if ctx st \<noteq> None \<and> context_close_throws B then ([CloseContext], Some ContextCloseFailed)
      else
        (let calls = (if ctx st \<noteq> None then [CloseContext] else [])
         in if browser st \<noteq> None then
              (calls @ [CloseBrowser],
               if browser_close_throws B then Some BrowserCloseFailed else None)
            else (calls, None)))"

section \<open>Command line: the page budget\<close>

text \<open>
  The numbers that \<^verbatim>\<open>parseInt\<close> returns: NaN, the two infinities, and the finite
  floating-point numbers of integer value. Negative zero is not told from zero: both are
  falsy.
\<close>

datatype js_number = NaN | PosInfinity | NegInfinity | Num int

text \<open>
  The number for a mathematical integer is the nearest floating-point number: 53
  significant bits are kept, a tie goes to the even neighbour, and a magnitude that rounds
  to \<open>2^1024\<close> or more is infinite. \<open>excess_bits n\<close> is the number of bits of \<open>n\<close> beyond 53.
\<close>

function excess_bits :: "int \<Rightarrow> nat" where
  "excess_bits n = (if n < 2 ^ 53 then 0 else Suc (excess_bits (n div 2)))"
  by pat_completeness auto
termination
  by (relation "measure nat") auto

declare excess_bits.simps [simp del]

definition round_magnitude :: "int \<Rightarrow> int" where
  "round_magnitude n =
     (let e = excess_bits n; q = n div 2 ^ e; r = n mod 2 ^ e
      in (if 2 ^ e < 2 * r \<or> (2 * r = 2 ^ e \<and> odd q) then q + 1 else q) * 2 ^ e)"

definition number_of_int :: "int \<Rightarrow> js_number" where
  "number_of_int i =
     (let m = round_magnitude \<bar>i\<bar>
      in if 2 ^ 1024 \<le> m then (if i < 0 then NegInfinity else PosInfinity)
         else Num (if i < 0 then - m else m))"

text \<open>
  White space and line terminators of the language, as the UTF-8 bytes of a string: tab,
  line feed, vertical tab, form feed, carriage return, space, U+00A0, U+1680, U+2000 to
  U+200A, U+2028, U+2029, U+202F, U+205F, U+3000 and U+FEFF.
\<close>

definition white_space :: "string list" where
  "white_space =
     [[CHR 0x09], [CHR 0x0A], [CHR 0x0B], [CHR 0x0C], [CHR 0x0D], [CHR 0x20],
      [CHR 0xC2, CHR 0xA0], [CHR 0xE1, CHR 0x9A, CHR 0x80],
      [CHR 0xE2, CHR 0x80, CHR 0x80], [CHR 0xE2, CHR 0x80, CHR 0x81],
      [CHR 0xE2, CHR 0x80, CHR 0x82], [CHR 0xE2, CHR 0x80, CHR 0x83],
      [CHR 0xE2, CHR 0x80, CHR 0x84], [CHR 0xE2, CHR 0x80, CHR 0x85],
      [CHR 0xE2, CHR 0x80, CHR 0x86], [CHR 0xE2, CHR 0x80, CHR 0x87],
      [CHR 0xE2, CHR 0x80, CHR 0x88], [CHR 0xE2, CHR 0x80, CHR 0x89],
      [CHR 0xE2, CHR 0x80, CHR 0x8A], [CHR 0xE2, CHR 0x80, CHR 0xA8],
      [CHR 0xE2, CHR 0x80, CHR 0xA9], [CHR 0xE2, CHR 0x80, CHR 0xAF],
      [CHR 0xE2, CHR 0x81, CHR 0x9F], [CHR 0xE3, CHR 0x80, CHR 0x80],
      [CHR 0xEF, CHR 0xBB, CHR 0xBF]]"

function trimStart :: "string \<Rightarrow> string" where
  "trimStart s =
     (case find (\<lambda>w. startsWith s w) white_space of
        None \<Rightarrow> s
      | Some w \<Rightarrow> trimStart (drop (length w) s))"
  by pat_completeness auto
termination
proof (relation "measure length", goal_cases)
  case 1
  show ?case by simp
next
  case (2 s w)
  then have "w \<in> set white_space" and sw: "take (length w) s = w"
    by (auto simp: find_Some_iff startsWith_def)
  then have "w \<noteq> []" by (auto simp: white_space_def)
  with sw have "s \<noteq> []" by auto
  with \<open>w \<noteq> []\<close> show ?case by simp
qed

declare trimStart.simps [simp del]

text \<open>
  \<^verbatim>\<open>parseInt(s)\<close> without a radix: leading white space is skipped, then an optional sign,
  then an optional \<^verbatim>\<open>0x\<close> prefix selecting radix 16, then the longest run of digits of
  the radix. No digit gives NaN; otherwise the result is the number for the integer read.
\<close>

definition digit_value :: "nat \<Rightarrow> char \<Rightarrow> nat option" where
  "digit_value radix c =
     (let n = (of_char c :: nat);
          v = (if 48 \<le> n \<and> n \<le> 57 then Some (n - 48)
               else if 97 \<le> n \<and> n \<le> 122 then Some (n - 87)
               else if 65 \<le> n \<and> n \<le> 90 then Some (n - 55)
               else None)
      in case v of None \<Rightarrow> None | Some d \<Rightarrow> if d < radix then Some d else None)"

fun leading_digits :: "nat \<Rightarrow> string \<Rightarrow> nat list" where
  "leading_digits radix [] = []"
| "leading_digits radix (c # cs) =
     (case digit_value radix c of None \<Rightarrow> [] | Some d \<Rightarrow> d # leading_digits radix cs)"

definition digits_value :: "nat \<Rightarrow> nat list \<Rightarrow> int" where
  "digits_value radix ds = foldl (\<lambda>a d. a * int radix + int d) 0 ds"

definition parseInt :: "string \<Rightarrow> js_number" where
  "parseInt inputString =
     (let S = trimStart inputString;
          negative = (S \<noteq> [] \<and> hd S = CHR ''-'');
          S1 = (if S \<noteq> [] \<and> (hd S = CHR ''+'' \<or> hd S = CHR ''-'') then tl S else S);
          hex = (take 2 S1 = ''0x'' \<or> take 2 S1 = ''0X'');
          R = (if hex then 16 else 10);
          S2 = (if hex then drop 2 S1 else S1);
          Z = leading_digits R S2
      in if Z = [] then NaN
         else number_of_int (if negative then - digits_value R Z else digits_value R Z))"

fun indexOf :: "string list \<Rightarrow> string \<Rightarrow> nat option" where
  "indexOf [] x = None"
| "indexOf (a # as) x = (if a = x then Some 0 else map_option Suc (indexOf as x))"

text \<open>\<^verbatim>\<open>args[i]\<close>: undefined (\<open>None\<close>) beyond the end of the array.\<close>

definition arg_at :: "string list \<Rightarrow> nat \<Rightarrow> string option" where
  "arg_at args i = (if i < length args then Some (args ! i) else None)"

text \<open>
  \<^verbatim>\<open>maxPagesIndex !== -1 && args[maxPagesIndex + 1] ? parseInt(args[maxPagesIndex + 1]) || 10 : 10\<close>:
  an undefined or empty argument is falsy, and so are NaN and zero. A finite budget is the
  integer that the constructor stores in \<^verbatim>\<open>maxPages\<close>.
\<close>

definition maxPages_of_args :: "string list \<Rightarrow> js_number" where
  "maxPages_of_args args =
     (case indexOf args ''--max-pages'' of
        None \<Rightarrow> Num 10
      | Some maxPagesIndex \<Rightarrow>
          (case arg_at args (maxPagesIndex + 1) of
             None \<Rightarrow> Num 10
           | Some v \<Rightarrow>
               if v = [] then Num 10
               else if parseInt v = NaN \<or> parseInt v = Num 0 then Num 10
               else parseInt v))"

text \<open>The usage check of \<^verbatim>\<open>main\<close>: \<open>None\<close> is the usage error (exit code 1).\<close>

definition main_args :: "string list \<Rightarrow> (string \<times> js_number) option" where
  "main_args args =
     (case args of
        [] \<Rightarrow> None
      | a # _ \<Rightarrow> if a = [] \<or> startsWith a ''--'' then None else Some (a, maxPages_of_args args))"

section \<open>Report rendering\<close>

text \<open>
  The runtime's part of rendering is a parameter: floating-point arithmetic on the
  Lighthouse scores with \<^verbatim>\<open>toFixed\<close>, and dates (\<^verbatim>\<open>new Date(s)\<close>, \<^verbatim>\<open>toLocaleString\<close>).
  The report is a byte string, UTF-8 as written to the file.
\<close>

record ('n, 'd) runtime =
  num_of_nat :: "nat \<Rightarrow> 'n"
  num_times :: "'n \<Rightarrow> 'n \<Rightarrow> 'n"
  num_plus :: "'n \<Rightarrow> 'n \<Rightarrow> 'n"
  num_divide :: "'n \<Rightarrow> 'n \<Rightarrow> 'n"
  num_ge :: "'n \<Rightarrow> 'n \<Rightarrow> bool"
  num_less :: "'n \<Rightarrow> 'n \<Rightarrow> bool"
  toFixed :: "'n \<Rightarrow> nat \<Rightarrow> string"
  date_of_string :: "string \<Rightarrow> 'd"
  toLocaleString :: "'d \<Rightarrow> string"

definition nl :: string where
  "nl = [CHR 0x0A]"

definition emoji_green :: string where
  "emoji_green = [CHR 0xF0, CHR 0x9F, CHR 0x9F, CHR 0xA2]"

definition emoji_yellow :: string where
  "emoji_yellow = [CHR 0xF0, CHR 0x9F, CHR 0x9F, CHR 0xA1]"

definition emoji_red :: string where
  "emoji_red = [CHR 0xF0, CHR 0x9F, CHR 0x94, CHR 0xB4]"

definition emoji_orange :: string where
  "emoji_orange = [CHR 0xF0, CHR 0x9F, CHR 0x9F, CHR 0xA0]"

definition emoji_blue :: string where
  "emoji_blue = [CHR 0xF0, CHR 0x9F, CHR 0x94, CHR 0xB5]"

definition emoji_check :: string where
  "emoji_check = [CHR 0xE2, CHR 0x9C, CHR 0x85]"

definition digit_char :: "nat \<Rightarrow> char" where
  "digit_char d = char_of (48 + d)"

text \<open>A length or a count inside a template string.\<close>

function string_of_nat :: "nat \<Rightarrow> string" where
  "string_of_nat n =
     (if n < 10 then [digit_char n] else string_of_nat (n div 10) @ [digit_char (n mod 10)])"
  by pat_completeness auto
termination
  by (relation "measure (\<lambda>n. n)") auto

declare string_of_nat.simps [simp del]

definition upper_char :: "char \<Rightarrow> char" where
  "upper_char c =
     (let n = (of_char c :: nat) in if 97 \<le> n \<and> n \<le> 122 then char_of (n - 32) else c)"

definition toUpperCase :: "string \<Rightarrow> string" where
  "toUpperCase s = map upper_char s"

definition impact_text :: "impact_value \<Rightarrow> string" where
  "impact_text i = (case i of Impact s \<Rightarrow> s | Null \<Rightarrow> ''null'' | Undefined \<Rightarrow> ''undefined'')"

text \<open>\<^verbatim>\<open>null * 100\<close> is zero: a null score converts to the number 0.\<close>

definition to_number :: "('n, 'd) runtime \<Rightarrow> 'n option \<Rightarrow> 'n" where
  "to_number R s = (case s of None \<Rightarrow> num_of_nat R 0 | Some x \<Rightarrow> x)"

definition score100 :: "('n, 'd) runtime \<Rightarrow> 'n lighthouse_result \<Rightarrow> 'n" where
  "score100 R lh = num_times R (to_number R (accessibility_score lh)) (num_of_nat R 100)"

definition totalViolations :: "'n page_result list \<Rightarrow> nat" where
  "totalViolations rs = foldl (\<lambda>sum r. sum + length (violations (axeResults r))) 0 rs"

definition impactIssues :: "string \<Rightarrow> 'n page_result list \<Rightarrow> nat" where
  "impactIssues level rs =
     foldl (\<lambda>sum r. sum + length (filter (\<lambda>v. impact v = Impact level) (violations (axeResults r))))
       0 rs"

definition lighthouseScores :: "('n, 'd) runtime \<Rightarrow> 'n page_result list \<Rightarrow> 'n list" where
  "lighthouseScores R rs =
     map (\<lambda>r. score100 R (the (lighthouseResults r))) (filter (\<lambda>r. lighthouseResults r \<noteq> None) rs)"

definition avgLighthouseScore :: "('n, 'd) runtime \<Rightarrow> 'n page_result list \<Rightarrow> string" where
  "avgLighthouseScore R rs =
     (let scores = lighthouseScores R rs
      in if length scores > 0 then
           toFixed R (num_divide R (foldl (num_plus R) (num_of_nat R 0) scores)
                                   (num_of_nat R (length scores))) 1
         else ''N/A'')"

definition render_summary :: "('n, 'd) runtime \<Rightarrow> 'n page_result list \<Rightarrow> string" where
  "render_summary R rs =
     ''## Summary'' @ nl @ nl @
     ''### Axe-core Results'' @ nl @ nl @
     ''- **Total Violations:** '' @ string_of_nat (totalViolations rs) @ nl @
     ''- **Critical Issues:** '' @ string_of_nat (impactIssues ''critical'' rs) @ nl @
     ''- **Serious Issues:** '' @ string_of_nat (impactIssues ''serious'' rs) @ nl @ nl @
     ''### Lighthouse Results'' @ nl @ nl @
     ''- **Average Accessibility Score:** '' @ avgLighthouseScore R rs @
        (if avgLighthouseScore R rs \<noteq> ''N/A'' then ''/100'' else []) @ nl @ nl @
     ''---'' @ nl @ nl"

definition truthy :: "string option \<Rightarrow> bool" where
  "truthy s \<longleftrightarrow> (case s of None \<Rightarrow> False | Some t \<Rightarrow> t \<noteq> [])"

definition render_audit :: "'n audit \<Rightarrow> string" where
  "render_audit a =
     ''- **'' @ title a @ ''**'' @ nl @
     (if truthy (audit_description a) then ''  '' @ the (audit_description a) @ nl else [])"

definition failedAudits :: "('n, 'd) runtime \<Rightarrow> 'n lighthouse_result \<Rightarrow> 'n audit list" where
  "failedAudits R lh =
     filter (\<lambda>a. audit_score a \<noteq> None \<and> num_less R (the (audit_score a)) (num_of_nat R 1)
                 \<and> scoreDisplayMode a \<noteq> ''notApplicable'') (audits lh)"

definition render_lighthouse :: "('n, 'd) runtime \<Rightarrow> 'n lighthouse_result \<Rightarrow> string" where
  "render_lighthouse R lh =
     (let score = score100 R lh;
          emoji = (if num_ge R score (num_of_nat R 90) then emoji_green
                   else if num_ge R score (num_of_nat R 50) then emoji_yellow else emoji_red);
          failed = failedAudits R lh
      in ''### '' @ emoji @ '' Lighthouse Accessibility Score: '' @ toFixed R score 0 @ ''/100'' @ nl @ nl @
         (if length failed > 0 then
            ''**Lighthouse Issues ('' @ string_of_nat (length failed) @ ''):**'' @ nl @ nl @
            concat (map render_audit failed) @ nl
          else []))"

definition render_node :: "nat \<Rightarrow> node \<Rightarrow> string" where
  "render_node i n =
     ''**Element '' @ string_of_nat (i + 1) @ '':**'' @ nl @ ''```html'' @ nl @ html n @ nl @ ''```'' @ nl @
     (if truthy (failureSummary n) then the (failureSummary n) @ nl @ nl else [])"

definition render_nodes :: "node list \<Rightarrow> string" where
  "render_nodes ns =
     (if length ns > 0 then
        ''<details>'' @ nl @ ''<summary>View affected elements</summary>'' @ nl @ nl @
        concat (map (\<lambda>i. render_node i (ns ! i)) [0 ..< min (length ns) 3]) @
        (if length ns > 3 then
           ''... and '' @ string_of_nat (length ns - 3) @ '' more element(s)'' @ nl @ nl
         else []) @
        ''</details>'' @ nl @ nl
      else [])"

definition render_violation :: "violation \<Rightarrow> string" where
  "render_violation v =
     ''**'' @ help_text v @ ''**'' @ nl @ nl @
     ''- **Description:** '' @ description v @ nl @
     ''- **Impact:** '' @ impact_text (impact v) @ nl @
     ''- **Affected Elements:** '' @ string_of_nat (length (nodes v)) @ nl @
     ''- **Learn More:** ['' @ rule_id v @ ''](''  @ helpUrl v @ '')'' @ nl @ nl @
     render_nodes (nodes v)"

text \<open>\<^verbatim>\<open>Object.entries(byImpact)\<close>: the four filters, in the order the keys are written.\<close>

definition byImpact :: "violation list \<Rightarrow> (string \<times> violation list) list" where
  "byImpact vs =
     [(''critical'', filter (\<lambda>v. impact v = Impact ''critical'') vs),
      (''serious'', filter (\<lambda>v. impact v = Impact ''serious'') vs),
      (''moderate'', filter (\<lambda>v. impact v = Impact ''moderate'') vs),
      (''minor'', filter (\<lambda>v. impact v = Impact ''minor'') vs)]"

definition impact_emoji :: "string \<Rightarrow> string" where
  "impact_emoji level =
     (if level = ''critical'' then emoji_red
      else if level = ''serious'' then emoji_orange
      else if level = ''moderate'' then emoji_yellow
      else emoji_blue)"

definition render_group :: "string \<times> violation list \<Rightarrow> string" where
  "render_group g =
     (case g of (level, vs) \<Rightarrow>
        if length vs = 0 then []
        else ''#### '' @ impact_emoji level @ '' '' @ toUpperCase level @
             '' ('' @ string_of_nat (length vs) @ '')'' @ nl @ nl @
             concat (map render_violation vs))"

definition render_axe :: "axe_results \<Rightarrow> string" where
  "render_axe a =
     (if length (violations a) = 0 then
        ''### '' @ emoji_check @ '' Axe-core: No violations found!'' @ nl @ nl
      else
        ''### Axe-core Violations ('' @ string_of_nat (length (violations a)) @ '')'' @ nl @ nl @
        concat (map render_group (byImpact (violations a))))"

definition render_page :: "('n, 'd) runtime \<Rightarrow> 'n page_result \<Rightarrow> string" where
  "render_page R pageResult =
     ''## Page: '' @ url pageResult @ nl @ nl @
     ''**Analyzed:** '' @ toLocaleString R (date_of_string R (timestamp pageResult)) @ nl @ nl @
     (case lighthouseResults pageResult of None \<Rightarrow> [] | Some lh \<Rightarrow> render_lighthouse R lh) @
     render_axe (axeResults pageResult) @
     ''---'' @ nl @ nl"

text \<open>
  \<open>now\<close> is the reading of the wall clock taken by \<^verbatim>\<open>new Date()\<close> in the second line of
  \<^verbatim>\<open>generateMarkdownReport\<close>.
\<close>

definition generateMarkdownReport :: "('n, 'd) runtime \<Rightarrow> 'd \<Rightarrow> 'n crawler \<Rightarrow> string" where
  "generateMarkdownReport R now st =
     ''# Accessibility Report'' @ nl @ nl @
     ''**Generated:** '' @ toLocaleString R now @ nl @
     ''**Pages Analyzed:** '' @ string_of_nat (length (results st)) @ nl @ nl @
     render_summary R (results st) @
     concat (map (render_page R) (results st))"


section \<open>Concrete inputs\<close>

text \<open>
  The theorems below hold for every parser, every web and every runtime. To evaluate the
  crawler on concrete inputs the parameters are instantiated: a parser for plain absolute
  \<^verbatim>\<open>http(s)://host/path?query#fragment\<close> strings, a small site, and a runtime that
  renders numbers in decimal and keeps a date as its text.
\<close>

definition split_first :: "char \<Rightarrow> string \<Rightarrow> string \<times> string option" where
  "split_first c s =
     (takeWhile (\<lambda>x. x \<noteq> c) s,
      case dropWhile (\<lambda>x. x \<noteq> c) s of [] \<Rightarrow> None | _ # r \<Rightarrow> Some r)"

definition plain_url_after :: "string \<Rightarrow> string \<Rightarrow> string option \<Rightarrow> URL option" where
  "plain_url_after scheme rest frag =
     (let hostpath = fst (split_first (CHR ''?'') rest);
          query = snd (split_first (CHR ''?'') rest);
          host = takeWhile (\<lambda>x. x \<noteq> CHR ''/'') hostpath;
          path = dropWhile (\<lambda>x. x \<noteq> CHR ''/'') hostpath;
          p = (if path = [] then ''/'' else path)
      in if host = [] then None
         else Some \<lparr>origin = scheme @ host, pathname = p,
                    href_without_fragment =
                      scheme @ host @ p @ (case query of None \<Rightarrow> [] | Some q \<Rightarrow> CHR ''?'' # q),
                    fragment = frag\<rparr>)"

definition plain_url :: url_parser where
  "plain_url s =
     (let front = fst (split_first (CHR ''#'') s); frag = snd (split_first (CHR ''#'') s)
      in if startsWith front ''https://'' then plain_url_after ''https://'' (drop 8 front) frag
         else if startsWith front ''http://'' then plain_url_after ''http://'' (drop 7 front) frag
         else None)"

definition page_ok :: "string list \<Rightarrow> nat page_behaviour" where
  "page_ok links =
     \<lparr>newPage_throws = False, goto_throws = False, axe_analyze = Some \<lparr>violations = []\<rparr>,
      lighthouse_run = LighthouseReturns None, clock_iso = ''2025-09-29T23:42:29.000Z'',
      anchor_hrefs = Some links, page_close_throws = False\<rparr>"

text \<open>
  The start page links to a page whose navigation fails, to a page in scope (twice, with
  two fragments), to another origin, to a PDF and to one more page in scope.
\<close>

definition example_site :: "nat web" where
  "example_site n =
     (if n = ''https://example.com/'' then
        page_ok [''https://example.com/broken#top'', ''https://example.com/about'',
                 ''https://other.org/'', ''https://example.com/file.pdf'',
                 ''https://example.com/about#team'', ''https://example.com/more'']
      else if n = ''https://example.com/broken'' then (page_ok [])\<lparr>goto_throws := True\<rparr>
      else page_ok [''https://example.com/''])"

text \<open>A launched session on \<^verbatim>\<open>https://example.com\<close> with page budget \<open>m\<close>.\<close>

definition example_session :: "int \<Rightarrow> nat crawler" where
  "example_session m =
     \<lparr>browser = Some Browser, ctx = Some BrowserContext, visitedUrls = [],
      baseUrl = ''https://example.com'', maxPages = m, results = [], cdpPort = 9222, console = []\<rparr>"

definition example_runtime :: "(nat, string) runtime" where
  "example_runtime =
     \<lparr>num_of_nat = (\<lambda>n. n), num_times = (\<lambda>a b. a * b), num_plus = (\<lambda>a b. a + b),
      num_divide = (\<lambda>a b. a div b), num_ge = (\<lambda>a b. a \<ge> b), num_less = (\<lambda>a b. a < b),
      toFixed = (\<lambda>x d. string_of_nat x), date_of_string = (\<lambda>s. s), toLocaleString = (\<lambda>d. d)\<rparr>"

text \<open>A violation carrying a given impact, and two readings of the wall clock.\<close>

definition example_violation :: "impact_value \<Rightarrow> violation" where
  "example_violation i =
     \<lparr>rule_id = ''image-alt'', impact = i, help_text = ''Images must have alternative text'',
      description = ''Ensure img elements have alternative text'',
      helpUrl = ''https://dequeuniversity.com/rules/axe/4.10/image-alt'', nodes = []\<rparr>"

definition clock_first :: string where
  "clock_first = ''9/29/2025, 11:42:29 PM''"

definition clock_second :: string where
  "clock_second = ''9/29/2025, 11:42:30 PM''"

section \<open>Atomic transitions of a traversal\<close>

definition may_reserve :: "url_parser \<Rightarrow> 'n crawler \<Rightarrow> string \<Rightarrow> bool" where
  "may_reserve P st n \<longleftrightarrow>
     browser st \<noteq> None \<and> ctx st \<noteq> None \<and> \<not> budget_reached st \<and> n \<notin> set (visitedUrls st)
     \<and> isInternalUrl P (baseUrl st) n \<and> isWebPage P n"

inductive crawl_step :: "url_parser \<Rightarrow> 'n web \<Rightarrow> 'n crawler \<Rightarrow> 'n crawler \<Rightarrow> bool"
  for P :: url_parser and W :: "'n web" where
  visit_failed:
    "may_reserve P st n \<Longrightarrow> analyse_page (W n) n (reserve n st) = None \<Longrightarrow>
     crawl_step P W st (log_error n (reserve n st))"
| visit_analysed:
    "may_reserve P st n \<Longrightarrow> analyse_page (W n) n (reserve n st) = Some st2 \<Longrightarrow>
     crawl_step P W st st2"
| expand_failed:
    "crawl_step P W st (log_error n st)"

lemma crawl_skip:
  "\<not> may_reserve P st (normalizeUrl P u) \<Longrightarrow> crawl P W u st = st"
  by (auto simp: may_reserve_def)

lemma crawl_visit:
  "may_reserve P st (normalizeUrl P u) \<Longrightarrow>
   crawl P W u st =
     (case analyse_page (W (normalizeUrl P u)) (normalizeUrl P u) (reserve (normalizeUrl P u) st) of
        None \<Rightarrow> log_error (normalizeUrl P u) (reserve (normalizeUrl P u) st)
      | Some st2 \<Rightarrow>
          if \<not> budget_reached st2 then
            (case extractLinks (W (normalizeUrl P u)) of
               None \<Rightarrow> log_error (normalizeUrl P u) st2
             | Some links \<Rightarrow>
                 if page_close_throws (W (normalizeUrl P u)) then log_error (normalizeUrl P u) st2
                 else crawl_links P W links st2)
          else if page_close_throws (W (normalizeUrl P u)) then log_error (normalizeUrl P u) st2
          else st2)"
  by (auto simp: may_reserve_def)

lemmas [simp del] = crawl.simps

lemma crawl_steps:
  "(crawl_step P W)\<^sup>*\<^sup>* st (crawl P W u st)"
  "(crawl_step P W)\<^sup>*\<^sup>* st (crawl_links P W ls st)"
proof (induct P W u st and P W ls st rule: crawl_crawl_links.induct)
  case (1 P W u st)
  let ?n = "normalizeUrl P u"
  show ?case
  proof (cases "may_reserve P st ?n")
    case False
    then show ?thesis by (simp add: crawl_skip)
  next
    case go: True
    note eq = crawl_visit [OF go, of W]
    show ?thesis
    proof (cases "analyse_page (W ?n) ?n (reserve ?n st)")
      case None
      then show ?thesis using visit_failed [of P st ?n W, OF go] by (simp add: eq)
    next
      case (Some st2)
      have s2: "(crawl_step P W)\<^sup>*\<^sup>* st st2" using visit_analysed [of P st ?n W st2, OF go] Some by auto
      have e2: "(crawl_step P W)\<^sup>*\<^sup>* st (log_error ?n st2)"
        using s2 expand_failed [of P W st2 ?n] by (rule rtranclp.rtrancl_into_rtrancl)
      show ?thesis
      proof (cases "budget_reached st2")
        case True
        then show ?thesis using s2 e2 Some by (simp add: eq)
      next
        case nb: False
        show ?thesis
        proof (cases "extractLinks (W ?n)")
          case None
          then show ?thesis using e2 Some nb by (simp add: eq)
        next
          case (Some links)
          show ?thesis
          proof (cases "page_close_throws (W ?n)")
            case True
            then show ?thesis using e2 Some \<open>analyse_page _ _ _ = Some st2\<close> nb by (simp add: eq)
          next
            case False
            have "(crawl_step P W)\<^sup>*\<^sup>* st2 (crawl_links P W links st2)"
              using go \<open>analyse_page _ _ _ = Some st2\<close> nb Some False
              by (intro 1) (auto simp: may_reserve_def)
            with s2 have "(crawl_step P W)\<^sup>*\<^sup>* st (crawl_links P W links st2)" by (rule rtranclp_trans)
            then show ?thesis
              using Some \<open>analyse_page _ _ _ = Some st2\<close> nb False by (simp add: eq)
          qed
        qed
      qed
    qed
  qed
next
  case (2 P W st)
  then show ?case by simp
next
  case (3 P W link links st)
  then show ?case by (cases "budget_reached st") auto
qed

lemma crawl_preserves:
  assumes step: "\<And>s s'. I s \<Longrightarrow> crawl_step P W s s' \<Longrightarrow> I s'" and "I st"
  shows "I (crawl P W u st)"
proof -
  have "(crawl_step P W)\<^sup>*\<^sup>* s s' \<Longrightarrow> I s \<Longrightarrow> I s'" for s s'
    by (induct rule: rtranclp_induct) (auto intro: step)
  from this [OF crawl_steps(1)] assms(2) show ?thesis .
qed


fun reserved_urls :: "log_event list \<Rightarrow> string list" where
  "reserved_urls [] = []"
| "reserved_urls (Crawling n k b # es) = n # reserved_urls es"
| "reserved_urls (LighthouseError n # es) = reserved_urls es"
| "reserved_urls (ErrorCrawling n # es) = reserved_urls es"

lemma reserved_urls_append: "reserved_urls (xs @ ys) = reserved_urls xs @ reserved_urls ys"
  by (induction xs rule: reserved_urls.induct) auto

definition progress_within :: "int \<Rightarrow> log_event list \<Rightarrow> bool" where
  "progress_within m evs \<longleftrightarrow> (\<forall>n k b. Crawling n k b \<in> set evs \<longrightarrow> int k \<le> m)"

definition in_scope :: "url_parser \<Rightarrow> string \<Rightarrow> string \<Rightarrow> bool" where
  "in_scope P base n \<longleftrightarrow> isInternalUrl P base n \<and> isWebPage P n"

definition extends :: "url_parser \<Rightarrow> 'n crawler \<Rightarrow> 'n crawler \<Rightarrow> bool" where
  "extends P st s \<longleftrightarrow>
     maxPages s = maxPages st \<and> baseUrl s = baseUrl st \<and> browser s = browser st \<and> ctx s = ctx st \<and>
     (\<exists>ws rs evs.
        visitedUrls s = visitedUrls st @ ws \<and> results s = results st @ rs \<and>
        console s = console st @ evs \<and>
        distinct ws \<and> set ws \<inter> set (visitedUrls st) = {} \<and> reserved_urls evs = ws \<and>
        distinct (map url rs) \<and> set (map url rs) \<subseteq> set ws \<and>
        (\<forall>n\<in>set ws. in_scope P (baseUrl st) n) \<and>
        (int (length (visitedUrls st)) \<le> maxPages st \<longrightarrow>
           int (length (visitedUrls s)) \<le> maxPages st \<and> progress_within (maxPages st) evs))"

lemma extends_refl: "extends P st st"
  by (simp add: extends_def progress_within_def)

lemma reserve_fields:
  "n \<notin> set (visitedUrls s) \<Longrightarrow> visitedUrls (reserve n s) = visitedUrls s @ [n]"
  "n \<notin> set (visitedUrls s) \<Longrightarrow>
     console (reserve n s) = console s @ [Crawling n (Suc (length (visitedUrls s))) (maxPages s)]"
  "results (reserve n s) = results s" "maxPages (reserve n s) = maxPages s"
  "baseUrl (reserve n s) = baseUrl s" "browser (reserve n s) = browser s" "ctx (reserve n s) = ctx s"
  by (simp_all add: reserve_def set_add_def Let_def)

lemma log_error_fields:
  "visitedUrls (log_error n s) = visitedUrls s" "console (log_error n s) = console s @ [ErrorCrawling n]"
  "results (log_error n s) = results s" "maxPages (log_error n s) = maxPages s"
  "baseUrl (log_error n s) = baseUrl s" "browser (log_error n s) = browser s" "ctx (log_error n s) = ctx s"
  by (simp_all add: log_error_def)

lemma analyse_page_fields:
  assumes "analyse_page page n s = Some s2"
  shows "visitedUrls s2 = visitedUrls s" "maxPages s2 = maxPages s" "baseUrl s2 = baseUrl s"
    "browser s2 = browser s" "ctx s2 = ctx s"
    "\<exists>r. results s2 = results s @ [r] \<and> url r = n"
    "console s2 = console s \<or> console s2 = console s @ [LighthouseError n]"
  using assms
  by (auto simp: analyse_page_def split: if_splits option.splits lighthouse_outcome.splits)

text \<open>What one transition adds.\<close>

lemma crawl_step_delta:
  assumes "crawl_step P W s s'"
  shows "maxPages s' = maxPages s \<and> baseUrl s' = baseUrl s \<and> browser s' = browser s \<and> ctx s' = ctx s \<and>
    (\<exists>ws rs evs. visitedUrls s' = visitedUrls s @ ws \<and> results s' = results s @ rs \<and>
       console s' = console s @ evs \<and> reserved_urls evs = ws \<and>
       set (map url rs) \<subseteq> set ws \<and> length rs \<le> 1 \<and>
       (ws = [] \<or> (\<exists>n. ws = [n] \<and> may_reserve P s n)) \<and>
       (\<forall>n k b. Crawling n k b \<in> set evs \<longrightarrow> k = Suc (length (visitedUrls s))))"
  using assms
proof cases
  case (visit_failed n)
  then have nv: "n \<notin> set (visitedUrls s)" by (simp add: may_reserve_def)
  show ?thesis
    unfolding visit_failed(1)
    using visit_failed(2) by (simp add: log_error_fields reserve_fields nv)
next
  case (visit_analysed n)
  then have nv: "n \<notin> set (visitedUrls s)" by (simp add: may_reserve_def)
  note f = analyse_page_fields [OF visit_analysed(2)]
  from f(6) obtain r where r: "results s' = results s @ [r]" "url r = n"
    by (auto simp: reserve_fields)
  from f(7) obtain evs where evs: "console s' = console s @ Crawling n (Suc (length (visitedUrls s))) (maxPages s) # evs"
     "evs = [] \<or> evs = [LighthouseError n]"
    by (auto simp: reserve_fields nv)
  show ?thesis
    using evs(2) visit_analysed(1) by (auto simp: f reserve_fields nv r evs(1))
next
  case (expand_failed n)
  show ?thesis
    unfolding expand_failed
    by (simp add: log_error_fields)
qed

lemma extends_step:
  assumes "extends P st s" "crawl_step P W s s'"
  shows "extends P st s'"
proof -
  from assms(1) obtain ws rs evs where
    fr: "maxPages s = maxPages st" "baseUrl s = baseUrl st" "browser s = browser st" "ctx s = ctx st"
    and d: "visitedUrls s = visitedUrls st @ ws" "results s = results st @ rs" "console s = console st @ evs"
      "distinct ws" "set ws \<inter> set (visitedUrls st) = {}" "reserved_urls evs = ws"
      "distinct (map url rs)" "set (map url rs) \<subseteq> set ws" "\<forall>n\<in>set ws. in_scope P (baseUrl st) n"
    and b: "int (length (visitedUrls st)) \<le> maxPages st \<Longrightarrow>
           int (length (visitedUrls s)) \<le> maxPages st \<and> progress_within (maxPages st) evs"
    unfolding extends_def by blast
  from crawl_step_delta [OF assms(2)] obtain ws1 rs1 evs1 where
    fr1: "maxPages s' = maxPages s" "baseUrl s' = baseUrl s" "browser s' = browser s" "ctx s' = ctx s"
    and d1: "visitedUrls s' = visitedUrls s @ ws1" "results s' = results s @ rs1"
      "console s' = console s @ evs1" "reserved_urls evs1 = ws1" "set (map url rs1) \<subseteq> set ws1"
      "length rs1 \<le> 1" "ws1 = [] \<or> (\<exists>n. ws1 = [n] \<and> may_reserve P s n)"
      "\<forall>n k b. Crawling n k b \<in> set evs1 \<longrightarrow> k = Suc (length (visitedUrls s))"
    by blast
  have new: "set ws1 \<inter> set (visitedUrls s) = {}" "distinct ws1"
    "\<forall>n\<in>set ws1. in_scope P (baseUrl st) n"
    "ws1 \<noteq> [] \<longrightarrow> length ws1 = 1 \<and> \<not> budget_reached s"
    using d1(7) by (auto simp: may_reserve_def in_scope_def fr)
  have drs1: "distinct (map url rs1)" using d1(6) by (cases rs1) auto
  have A: "visitedUrls s' = visitedUrls st @ (ws @ ws1)" by (simp add: d1 d)
  have B: "results s' = results st @ (rs @ rs1)" by (simp add: d1 d)
  have C: "console s' = console st @ (evs @ evs1)" by (simp add: d1 d)
  have D: "distinct (ws @ ws1)" using d(4) new(1,2) by (auto simp: d(1))
  have E: "set (ws @ ws1) \<inter> set (visitedUrls st) = {}" using d(5) new(1) by (auto simp: d(1))
  have F: "reserved_urls (evs @ evs1) = ws @ ws1" by (simp add: reserved_urls_append d d1)
  have G: "distinct (map url (rs @ rs1))"
    using d(7) drs1 d(8) d1(5) new(1) by (auto simp: d(1))
  have H: "set (map url (rs @ rs1)) \<subseteq> set (ws @ ws1)" using d(8) d1(5) by auto
  have I: "\<forall>n\<in>set (ws @ ws1). in_scope P (baseUrl st) n" using d(9) new(3) by auto
  have J: "int (length (visitedUrls s')) \<le> maxPages st \<and> progress_within (maxPages st) (evs @ evs1)"
    if "int (length (visitedUrls st)) \<le> maxPages st"
  proof -
    from b [OF that] have 1: "int (length (visitedUrls s)) \<le> maxPages st"
      and 2: "progress_within (maxPages st) evs" by auto
    have 3: "int (length (visitedUrls s')) \<le> maxPages st"
      using new(4) 1 by (cases "ws1 = []") (auto simp: d1(1) budget_reached_def fr)
    have "int k \<le> maxPages st" if "Crawling n k b \<in> set evs1" for n k b
    proof -
      from that have "reserved_urls evs1 \<noteq> []"
        by (induction evs1 rule: reserved_urls.induct) auto
      with d1(4) new(4) have "\<not> budget_reached s" by auto
      moreover from that d1(8) have "k = Suc (length (visitedUrls s))" by blast
      ultimately show ?thesis by (simp add: budget_reached_def fr)
    qed
    with 2 have "progress_within (maxPages st) (evs @ evs1)"
      by (auto simp: progress_within_def)
    with 3 show ?thesis by simp
  qed
  show ?thesis
    unfolding extends_def
    apply (simp only: fr fr1 simp_thms)
    apply (rule exI [of _ "ws @ ws1"], rule exI [of _ "rs @ rs1"], rule exI [of _ "evs @ evs1"])
    using A B C D E F G H I J by (simp only: simp_thms) blast
qed

lemma crawl_extends: "extends P st (crawl P W u st)"
  by (rule crawl_preserves [where I = "extends P st"]) (auto intro: extends_step extends_refl)


lemma crawls_extend: "extends P st (foldl (\<lambda>s u. crawl P W u s) st us)"
proof (induction us rule: rev_induct)
  case Nil
  show ?case by (simp add: extends_refl)
next
  case (snoc u us)
  show ?case
    using snoc
    by (simp, intro crawl_preserves [where I = "extends P st"]) (auto intro: extends_step)
qed

lemma new_crawler_fresh:
  assumes "new_crawler P start m = Inr c" "initialize l c = Inr st"
  shows "visitedUrls st = []" "results st = []" "console st = []" "maxPages st = m"
    "baseUrl st = baseUrl c"
  using assms
  by (auto simp: new_crawler_def initialize_def split: option.splits launch_outcome.splits)

lemma example_session_start:
  "new_crawler plain_url ''https://example.com'' m =
     Inr ((example_session m)\<lparr>browser := None, ctx := None\<rparr>)"
  "initialize Launched ((example_session m)\<lparr>browser := None, ctx := None\<rparr>) = Inr (example_session m)"
  by (simp_all add: new_crawler_def initialize_def example_session_def plain_url_def
        plain_url_after_def split_first_def startsWith_def Let_def)

section \<open>The page budget\<close>

text \<open>
  C1. In a session with a non-negative page budget \<open>m\<close> (constructed, launched, then
  crawled by any sequence of calls of \<^verbatim>\<open>crawl\<close>), the visited set never holds more than
  \<open>m\<close> identities. After the traversal its size is at most \<open>m\<close>. During the traversal the
  set changes only where an identity is reserved, and each reservation prints the size it
  has reached in its progress line: every size printed is at most \<open>m\<close>. The reason is the
  first guard: a call of \<^verbatim>\<open>crawl\<close> on a state whose visited set has reached the budget
  returns the state as it is.
\<close>

theorem visited_never_exceeds_budget:
  assumes "0 \<le> m" and "new_crawler P start m = Inr c" and "initialize l c = Inr st"
  shows "int (length (visitedUrls (foldl (\<lambda>s u. crawl P W u s) st us))) \<le> m \<and>
         (\<forall>n k b. Crawling n k b \<in> set (console (foldl (\<lambda>s u. crawl P W u s) st us)) \<longrightarrow> int k \<le> m) \<and>
         (\<forall>s u. maxPages s \<le> int (length (visitedUrls s)) \<longrightarrow> crawl P W u s = s)"
proof -
  note f = new_crawler_fresh [OF assms(2,3)]
  let ?s = "foldl (\<lambda>s u. crawl P W u s) st us"
  have "extends P st ?s" by (rule crawls_extend)
  with f assms(1) have "int (length (visitedUrls ?s)) \<le> m"
    and "\<exists>evs. console ?s = evs \<and> progress_within m evs"
    by (auto simp: extends_def)
  moreover have "crawl P W u s = s" if "maxPages s \<le> int (length (visitedUrls s))" for s u
    using that by (simp add: crawl_skip may_reserve_def budget_reached_def)
  ultimately show ?thesis by (auto simp: progress_within_def)
qed

theorem visited_never_exceeds_budget_witness:
  "int (length (visitedUrls (foldl (\<lambda>s u. crawl plain_url example_site u s) (example_session 3)
          [''https://example.com'']))) \<le> 3 \<and>
   visitedUrls (crawl plain_url example_site ''https://example.com'' (example_session 3)) =
     [''https://example.com/'', ''https://example.com/broken'', ''https://example.com/about''] \<and>
   console (crawl plain_url example_site ''https://example.com'' (example_session 3)) =
     [Crawling ''https://example.com/'' 1 3, Crawling ''https://example.com/broken'' 2 3,
      ErrorCrawling ''https://example.com/broken'', Crawling ''https://example.com/about'' 3 3]"
proof -
  have a: "(0::int) \<le> 3" by simp
  have d: "visitedUrls (crawl plain_url example_site ''https://example.com'' (example_session 3)) =
     [''https://example.com/'', ''https://example.com/broken'', ''https://example.com/about'']"
    by code_simp
  have e: "console (crawl plain_url example_site ''https://example.com'' (example_session 3)) =
     [Crawling ''https://example.com/'' 1 3, Crawling ''https://example.com/broken'' 2 3,
      ErrorCrawling ''https://example.com/broken'', Crawling ''https://example.com/about'' 3 3]"
    by code_simp
  from visited_never_exceeds_budget [OF a example_session_start, of example_site "[''https://example.com'']"] d e
  show ?thesis by simp
qed


lemma crawl_links_extends: "extends P st (crawl_links P W ls st)"
proof -
  have "(crawl_step P W)\<^sup>*\<^sup>* s s' \<Longrightarrow> extends P st s \<Longrightarrow> extends P st s'" for s s'
    by (induct rule: rtranclp_induct) (auto intro: extends_step)
  from this [OF crawl_steps(2)] show ?thesis by (simp add: extends_refl)
qed

lemma extends_visited_mono: "extends P st s \<Longrightarrow> set (visitedUrls st) \<subseteq> set (visitedUrls s)"
  by (auto simp: extends_def)

lemma crawl_reserves:
  assumes "may_reserve P st (normalizeUrl P u)"
  shows "normalizeUrl P u \<in> set (visitedUrls (crawl P W u st))"
proof -
  let ?n = "normalizeUrl P u"
  have nv: "?n \<notin> set (visitedUrls st)" using assms by (simp add: may_reserve_def)
  have r: "?n \<in> set (visitedUrls (reserve ?n st))" by (simp add: reserve_fields nv)
  show ?thesis
  proof (cases "analyse_page (W ?n) ?n (reserve ?n st)")
    case None
    then show ?thesis using r by (simp add: crawl_visit [OF assms] log_error_fields)
  next
    case (Some st2)
    then have v2: "?n \<in> set (visitedUrls st2)" using r by (simp add: analyse_page_fields(1))
    then have "?n \<in> set (visitedUrls (crawl_links P W links st2))" for links
      using extends_visited_mono [OF crawl_links_extends] by blast
    with v2 show ?thesis
      by (simp add: crawl_visit [OF assms] Some log_error_fields split: option.splits)
  qed
qed

lemma crawl_again:
  assumes "normalizeUrl P u' = normalizeUrl P u"
  shows "crawl P W u' (crawl P W u st) = crawl P W u st"
proof (cases "may_reserve P st (normalizeUrl P u)")
  case True
  from crawl_reserves [OF True] have "\<not> may_reserve P (crawl P W u st) (normalizeUrl P u')"
    by (simp add: may_reserve_def assms)
  then show ?thesis by (rule crawl_skip)
next
  case False
  then have "crawl P W u st = st" by (rule crawl_skip)
  moreover from False have "crawl P W u' st = st" by (simp add: crawl_skip assms)
  ultimately show ?thesis by simp
qed

section \<open>Idempotent visitation\<close>

text \<open>
  C2. Visitation is idempotent. For a call of \<^verbatim>\<open>crawl\<close> on any state: the visited set
  afterwards is the visited set before, followed by the identities \<open>ws\<close> reserved during the
  call, so nothing is removed; the reservations made during the call, read off their progress
  lines, are exactly \<open>ws\<close>, pairwise distinct and none of them visited before, so no identity
  is added twice; the page results appended during the call have pairwise distinct URLs, all
  among \<open>ws\<close>, so an identity is analysed at most once and an identity visited earlier is
  not analysed again; and a second call on any URL with the same canonical form changes
  nothing.
\<close>

theorem idempotent_visitation:
  "\<exists>ws rs evs.
     visitedUrls (crawl P W u st) = visitedUrls st @ ws \<and> distinct ws \<and>
     set ws \<inter> set (visitedUrls st) = {} \<and>
     console (crawl P W u st) = console st @ evs \<and> reserved_urls evs = ws \<and>
     results (crawl P W u st) = results st @ rs \<and> distinct (map url rs) \<and>
     set (map url rs) \<subseteq> set ws \<and>
     (\<forall>u'. normalizeUrl P u' = normalizeUrl P u \<longrightarrow>
        crawl P W u' (crawl P W u st) = crawl P W u st)"
proof -
  from crawl_extends [of P st W u] obtain ws rs evs where
    "visitedUrls (crawl P W u st) = visitedUrls st @ ws" "distinct ws"
    "set ws \<inter> set (visitedUrls st) = {}"
    "console (crawl P W u st) = console st @ evs" "reserved_urls evs = ws"
    "results (crawl P W u st) = results st @ rs" "distinct (map url rs)"
    "set (map url rs) \<subseteq> set ws"
    unfolding extends_def by blast
  then show ?thesis using crawl_again [of P _ u W st] by blast
qed

theorem idempotent_visitation_witness:
  "crawl plain_url example_site ''https://example.com/about#team''
     (crawl plain_url example_site ''https://example.com/about'' (example_session 1)) =
   crawl plain_url example_site ''https://example.com/about'' (example_session 1) \<and>
   map url (results (crawl plain_url example_site ''https://example.com/about'' (example_session 1))) =
     [''https://example.com/about'']"
proof -
  have n: "normalizeUrl plain_url ''https://example.com/about#team'' =
           normalizeUrl plain_url ''https://example.com/about''"
    by code_simp
  have r: "map url (results (crawl plain_url example_site ''https://example.com/about'' (example_session 1))) =
     [''https://example.com/about'']"
    by code_simp
  from idempotent_visitation [of plain_url example_site "''https://example.com/about''" "example_session 1"]
  obtain ws rs evs where "\<forall>u'. normalizeUrl plain_url u' = normalizeUrl plain_url ''https://example.com/about'' \<longrightarrow>
        crawl plain_url example_site u' (crawl plain_url example_site ''https://example.com/about'' (example_session 1)) =
        crawl plain_url example_site ''https://example.com/about'' (example_session 1)"
    by blast
  with n r show ?thesis by blast
qed


section \<open>Failure of one target\<close>

text \<open>
  C3. Let a call of \<^verbatim>\<open>crawl\<close> pass its guards, so that the target is reserved, and let
  opening the page, the navigation or the axe analysis throw. Then the call returns (the
  exception is caught) the state it was given with two changes only: the identity is in the
  visited set, and the console holds the progress line and the error line of the target. No
  page result is appended. The loop over the links of the parent page goes on with the
  links that follow, from that state, under its usual budget check.
\<close>

theorem failed_target_is_skipped:
  assumes "may_reserve P st (normalizeUrl P u)"
    and "newPage_throws (W (normalizeUrl P u)) \<or> goto_throws (W (normalizeUrl P u))
         \<or> axe_analyze (W (normalizeUrl P u)) = None"
  shows "crawl P W u st =
           st\<lparr>visitedUrls := visitedUrls st @ [normalizeUrl P u],
              console := console st @
                [Crawling (normalizeUrl P u) (Suc (length (visitedUrls st))) (maxPages st),
                 ErrorCrawling (normalizeUrl P u)]\<rparr> \<and>
         results (crawl P W u st) = results st \<and>
         normalizeUrl P u \<in> set (visitedUrls (crawl P W u st)) \<and>
         crawl_links P W (u # rest) st = crawl_links P W rest (crawl P W u st)"
proof -
  let ?n = "normalizeUrl P u"
  have nv: "?n \<notin> set (visitedUrls st)" and nb: "\<not> budget_reached st"
    using assms(1) by (simp_all add: may_reserve_def)
  have "analyse_page (W ?n) ?n (reserve ?n st) = None"
    using assms(2) by (auto simp: analyse_page_def)
  then have "crawl P W u st = log_error ?n (reserve ?n st)"
    by (simp add: crawl_visit [OF assms(1)])
  also have "\<dots> = st\<lparr>visitedUrls := visitedUrls st @ [?n],
              console := console st @
                [Crawling ?n (Suc (length (visitedUrls st))) (maxPages st), ErrorCrawling ?n]\<rparr>"
    using nv by (simp add: log_error_def reserve_def set_add_def Let_def)
  finally have eq: "crawl P W u st = st\<lparr>visitedUrls := visitedUrls st @ [?n],
              console := console st @
                [Crawling ?n (Suc (length (visitedUrls st))) (maxPages st), ErrorCrawling ?n]\<rparr>" .
  have "crawl_links P W (u # rest) st = crawl_links P W rest (crawl P W u st)"
    using nb by simp
  with eq show ?thesis by simp
qed

theorem failed_target_is_skipped_witness:
  "crawl plain_url example_site ''https://example.com/broken#top'' (example_session 3) =
     (example_session 3)
       \<lparr>visitedUrls := [''https://example.com/broken''],
        console := [Crawling ''https://example.com/broken'' 1 3,
                    ErrorCrawling ''https://example.com/broken'']\<rparr> \<and>
   map url (results (crawl_links plain_url example_site
      [''https://example.com/broken#top'', ''https://example.com/about''] (example_session 3))) =
     [''https://example.com/about'', ''https://example.com/'']"
proof -
  have n: "normalizeUrl plain_url ''https://example.com/broken#top'' = ''https://example.com/broken''"
    by code_simp
  have g: "may_reserve plain_url (example_session 3) ''https://example.com/broken''"
    by code_simp
  have f: "goto_throws (example_site ''https://example.com/broken'')"
    by code_simp
  have r: "map url (results (crawl_links plain_url example_site
      [''https://example.com/broken#top'', ''https://example.com/about''] (example_session 3))) =
     [''https://example.com/about'', ''https://example.com/'']"
    by code_simp
  from failed_target_is_skipped [of plain_url "example_session 3"
      "''https://example.com/broken#top''" example_site "[]"]
  have "crawl plain_url example_site ''https://example.com/broken#top'' (example_session 3) =
     (example_session 3)
       \<lparr>visitedUrls := [''https://example.com/broken''],
        console := [Crawling ''https://example.com/broken'' 1 3,
                    ErrorCrawling ''https://example.com/broken'']\<rparr>"
    by (simp add: n g f) (simp add: example_session_def)
  with r show ?thesis by simp
qed


lemma isInternalUrl_iff: "isInternalUrl P b s \<longleftrightarrow> (\<exists>x. P s = Some x \<and> origin x = b)"
  by (simp add: isInternalUrl_def split: option.splits)

lemma isWebPage_iff:
  "isWebPage P s \<longleftrightarrow>
     (\<forall>x. P s = Some x \<longrightarrow> \<not> (\<exists>ext\<in>set fileExtensions. endsWith (toLowerCase (pathname x)) ext))"
  by (simp add: isWebPage_def list_ex_iff split: option.splits)

section \<open>Scope and document type\<close>

text \<open>
  C8. A URL whose canonical form does not parse, or parses to an origin other than the
  session's base origin, or to a path that ends (case-insensitively) in one of the listed
  extensions, is not reserved and not analysed: \<^verbatim>\<open>crawl\<close> returns the state unchanged.
  Whatever URLs are fed to \<^verbatim>\<open>crawl\<close> and in whatever order, every identity added to the
  visited set parses, has the base origin and has none of the listed extensions, and every
  page result added belongs to such an identity. A string that does not parse classifies as
  not internal and as a web page.
\<close>

theorem out_of_scope_never_reserved:
  "((\<forall>x. P (normalizeUrl P u) = Some x \<longrightarrow>
        origin x \<noteq> baseUrl st \<or>
        (\<exists>ext\<in>set fileExtensions. endsWith (toLowerCase (pathname x)) ext)) \<longrightarrow>
     crawl P W u st = st) \<and>
   (\<exists>ws rs.
      visitedUrls (foldl (\<lambda>s u. crawl P W u s) st us) = visitedUrls st @ ws \<and>
      results (foldl (\<lambda>s u. crawl P W u s) st us) = results st @ rs \<and>
      set (map url rs) \<subseteq> set ws \<and>
      (\<forall>n\<in>set ws. \<exists>x. P n = Some x \<and> origin x = baseUrl st \<and>
         \<not> (\<exists>ext\<in>set fileExtensions. endsWith (toLowerCase (pathname x)) ext))) \<and>
   (\<forall>s b. P s = None \<longrightarrow> \<not> isInternalUrl P b s \<and> isWebPage P s)"
proof -
  have 1: "crawl P W u st = st"
    if "\<forall>x. P (normalizeUrl P u) = Some x \<longrightarrow>
        origin x \<noteq> baseUrl st \<or>
        (\<exists>ext\<in>set fileExtensions. endsWith (toLowerCase (pathname x)) ext)"
  proof -
    from that have "\<not> (isInternalUrl P (baseUrl st) (normalizeUrl P u) \<and> isWebPage P (normalizeUrl P u))"
      unfolding isInternalUrl_iff isWebPage_iff by blast
    then have "\<not> may_reserve P st (normalizeUrl P u)" by (auto simp: may_reserve_def)
    then show ?thesis by (rule crawl_skip)
  qed
  let ?s = "foldl (\<lambda>s u. crawl P W u s) st us"
  from crawls_extend [of P st W us] obtain ws rs where
    d: "visitedUrls ?s = visitedUrls st @ ws" "results ?s = results st @ rs"
      "set (map url rs) \<subseteq> set ws" "\<forall>n\<in>set ws. in_scope P (baseUrl st) n"
    unfolding extends_def by blast
  have "\<exists>x. P n = Some x \<and> origin x = baseUrl st \<and>
         \<not> (\<exists>ext\<in>set fileExtensions. endsWith (toLowerCase (pathname x)) ext)"
    if "n \<in> set ws" for n
  proof -
    from d(4) that have "isInternalUrl P (baseUrl st) n" "isWebPage P n"
      by (auto simp: in_scope_def)
    then show ?thesis unfolding isInternalUrl_iff isWebPage_iff by blast
  qed
  with d(1-3) have 2: "\<exists>ws rs.
      visitedUrls ?s = visitedUrls st @ ws \<and> results ?s = results st @ rs \<and>
      set (map url rs) \<subseteq> set ws \<and>
      (\<forall>n\<in>set ws. \<exists>x. P n = Some x \<and> origin x = baseUrl st \<and>
         \<not> (\<exists>ext\<in>set fileExtensions. endsWith (toLowerCase (pathname x)) ext))"
    by blast
  have 3: "\<forall>s b. P s = None \<longrightarrow> \<not> isInternalUrl P b s \<and> isWebPage P s"
    by (simp add: isInternalUrl_def isWebPage_def)
  from 1 2 3 show ?thesis by blast
qed

theorem out_of_scope_never_reserved_witness:
  "crawl plain_url example_site ''https://other.org/'' (example_session 3) = example_session 3 \<and>
   crawl plain_url example_site ''https://example.com/File.PDF#p2'' (example_session 3) = example_session 3 \<and>
   crawl plain_url example_site ''not a url'' (example_session 3) = example_session 3"
proof -
  have a: "plain_url (normalizeUrl plain_url ''https://other.org/'') =
      Some \<lparr>origin = ''https://other.org'', pathname = ''/'',
            href_without_fragment = ''https://other.org/'', fragment = None\<rparr>"
    by code_simp
  have b: "plain_url (normalizeUrl plain_url ''https://example.com/File.PDF#p2'') =
      Some \<lparr>origin = ''https://example.com'', pathname = ''/File.PDF'',
            href_without_fragment = ''https://example.com/File.PDF'', fragment = None\<rparr>"
    by code_simp
  have b': "endsWith (toLowerCase ''/File.PDF'') ''.pdf''" "''.pdf'' \<in> set fileExtensions"
    by code_simp+
  have c: "plain_url (normalizeUrl plain_url ''not a url'') = None"
    by code_simp
  have base: "baseUrl (example_session 3) = ''https://example.com''"
    by (simp add: example_session_def)
  have 1: "crawl plain_url example_site ''https://other.org/'' (example_session 3) = example_session 3"
    using out_of_scope_never_reserved [of plain_url "''https://other.org/''" "example_session 3" example_site "[]"]
    by (simp add: a base)
  have 2: "crawl plain_url example_site ''https://example.com/File.PDF#p2'' (example_session 3) = example_session 3"
    using out_of_scope_never_reserved [of plain_url "''https://example.com/File.PDF#p2''" "example_session 3" example_site "[]"] b'
    by (simp add: b base) blast
  have 3: "crawl plain_url example_site ''not a url'' (example_session 3) = example_session 3"
    using out_of_scope_never_reserved [of plain_url "''not a url''" "example_session 3" example_site "[]"]
    by (simp add: c)
  from 1 2 3 show ?thesis by simp
qed


section \<open>Canonical form\<close>

text \<open>
  C9. \<^verbatim>\<open>normalizeUrl\<close> strips the fragment of every string that parses: the result is the
  serialisation of the parsed URL without its fragment. Hence two strings that parse to
  URLs differing in the fragment only have the same canonical form. A string that does not
  parse is returned as it is.
\<close>

theorem normalize_strips_fragment:
  "(\<forall>x. P a = Some x \<longrightarrow> normalizeUrl P a = href_without_fragment x) \<and>
   (\<forall>x y. P a = Some x \<and> P b = Some y \<and> y = x\<lparr>fragment := fragment y\<rparr> \<longrightarrow>
      normalizeUrl P a = normalizeUrl P b) \<and>
   (P a = None \<longrightarrow> normalizeUrl P a = a)"
proof -
  have 1: "normalizeUrl P s = href_without_fragment x" if "P s = Some x" for s x
    using that by (simp add: normalizeUrl_def href_def clear_hash_def)
  have 2: "normalizeUrl P a = normalizeUrl P b"
    if "P a = Some x" "P b = Some y" "y = x\<lparr>fragment := fragment y\<rparr>" for x y
  proof -
    from that(3) have "href_without_fragment y = href_without_fragment x"
      by (metis URL.select_convs(3) URL.surjective URL.update_convs(4))
    with 1 [OF that(1)] 1 [OF that(2)] show ?thesis by simp
  qed
  have 3: "normalizeUrl P a = a" if "P a = None"
    using that by (simp add: normalizeUrl_def)
  from 1 2 3 show ?thesis by blast
qed

theorem normalize_strips_fragment_witness:
  "normalizeUrl plain_url ''https://ex.com/a#x'' = ''https://ex.com/a'' \<and>
   normalizeUrl plain_url ''https://ex.com/a#y'' = normalizeUrl plain_url ''https://ex.com/a#x'' \<and>
   normalizeUrl plain_url ''ex.com/a#x'' = ''ex.com/a#x''"
proof -
  have a: "plain_url ''https://ex.com/a#x'' =
      Some \<lparr>origin = ''https://ex.com'', pathname = ''/a'',
            href_without_fragment = ''https://ex.com/a'', fragment = Some ''x''\<rparr>"
    by code_simp
  have b: "plain_url ''https://ex.com/a#y'' =
      Some \<lparr>origin = ''https://ex.com'', pathname = ''/a'',
            href_without_fragment = ''https://ex.com/a'', fragment = Some ''y''\<rparr>"
    by code_simp
  have c: "plain_url ''ex.com/a#x'' = None"
    by code_simp
  have 1: "normalizeUrl plain_url ''https://ex.com/a#x'' = ''https://ex.com/a''"
    using normalize_strips_fragment [of plain_url "''https://ex.com/a#x''" "''https://ex.com/a#y''"]
    by (simp add: a)
  have 2: "normalizeUrl plain_url ''https://ex.com/a#y'' = normalizeUrl plain_url ''https://ex.com/a#x''"
    by (rule conjunct1 [OF conjunct2 [OF normalize_strips_fragment
            [of plain_url "''https://ex.com/a#y''" "''https://ex.com/a#x''"]],
          rule_format, OF conjI [OF b conjI [OF a]]]) simp
  have 3: "normalizeUrl plain_url ''ex.com/a#x'' = ''ex.com/a#x''"
    using normalize_strips_fragment [of plain_url "''ex.com/a#x''" "''ex.com/a#x''"]
    by (simp add: c)
  from 1 2 3 show ?thesis by simp
qed

section \<open>Page results\<close>

text \<open>
  C10, as amended. In every state that a session reaches by calls of \<^verbatim>\<open>crawl\<close>, the URLs
  of the page results are pairwise distinct and each is in the visited set, so the number
  of page results is at most the size of the visited set; and when the page budget is not
  negative it is at most the budget. (With a negative budget nothing is visited, and the
  count 0 exceeds the budget.)
\<close>

theorem page_results_distinct_and_visited:
  assumes "new_crawler P start m = Inr c" and "initialize l c = Inr st"
    and "s = foldl (\<lambda>s u. crawl P W u s) st us"
  shows "distinct (map url (results s)) \<and> set (map url (results s)) \<subseteq> set (visitedUrls s) \<and>
         length (results s) \<le> length (visitedUrls s) \<and>
         (0 \<le> m \<longrightarrow> int (length (results s)) \<le> m)"
proof -
  note f = new_crawler_fresh [OF assms(1,2)]
  have "extends P st s" unfolding assms(3) by (rule crawls_extend)
  with f have d: "distinct (map url (results s))" "set (map url (results s)) \<subseteq> set (visitedUrls s)"
    and b: "0 \<le> m \<Longrightarrow> int (length (visitedUrls s)) \<le> m"
    by (auto simp: extends_def)
  have "length (results s) = card (set (map url (results s)))"
    using d(1) by (metis distinct_card length_map)
  also have "\<dots> \<le> card (set (visitedUrls s))"
    using d(2) by (intro card_mono) auto
  also have "\<dots> \<le> length (visitedUrls s)" by (rule card_length)
  finally have le: "length (results s) \<le> length (visitedUrls s)" .
  with b have "0 \<le> m \<longrightarrow> int (length (results s)) \<le> m" by auto
  with d le show ?thesis by simp
qed

theorem page_results_distinct_and_visited_witness:
  "map url (results (foldl (\<lambda>s u. crawl plain_url example_site u s) (example_session 3)
      [''https://example.com''])) = [''https://example.com/'', ''https://example.com/about''] \<and>
   int (length (results (foldl (\<lambda>s u. crawl plain_url example_site u s) (example_session 3)
      [''https://example.com'']))) \<le> 3"
proof -
  have r: "map url (results (foldl (\<lambda>s u. crawl plain_url example_site u s) (example_session 3)
      [''https://example.com''])) = [''https://example.com/'', ''https://example.com/about'']"
    by code_simp
  from page_results_distinct_and_visited [OF example_session_start refl,
      where m = 3 and W = example_site and us = "[''https://example.com'']"] r
  show ?thesis by simp
qed

theorem page_count_negative_budget_counterexample:
  "new_crawler plain_url ''https://example.com'' (- 5) =
     Inr ((example_session (- 5))\<lparr>browser := None, ctx := None\<rparr>) \<and>
   initialize Launched ((example_session (- 5))\<lparr>browser := None, ctx := None\<rparr>) =
     Inr (example_session (- 5)) \<and>
   \<not> int (length (results (crawl plain_url example_site ''https://example.com'' (example_session (- 5)))))
       \<le> maxPages (crawl plain_url example_site ''https://example.com'' (example_session (- 5)))"
proof -
  have "budget_reached (example_session (- 5))"
    by (simp add: budget_reached_def example_session_def)
  then have "crawl plain_url example_site ''https://example.com'' (example_session (- 5)) = example_session (- 5)"
    by (simp add: crawl_skip may_reserve_def)
  then show ?thesis
    by (simp add: example_session_start) (simp add: example_session_def)
qed


section \<open>The page budget on the command line\<close>

lemma digits_value_snoc: "digits_value r (ds @ [d]) = digits_value r ds * int r + int d"
  by (simp add: digits_value_def)

lemma of_char_digit_char: "d < 10 \<Longrightarrow> (of_char (digit_char d) :: nat) = 48 + d"
  by (simp add: digit_char_def)

lemma digit_char_not_special:
  assumes "d < 10"
  shows "digit_char d \<noteq> CHR ''-''" "digit_char d \<noteq> CHR ''+''"
    "digit_char d \<noteq> CHR ''x''" "digit_char d \<noteq> CHR ''X''"
proof -
  note e = of_char_digit_char [OF assms]
  have "(of_char (digit_char d) :: nat) \<noteq> of_char c" if "(of_char c :: nat) < 48 \<or> 57 < (of_char c :: nat)" for c
    using that assms by (auto simp: e)
  then have ne: "digit_char d \<noteq> c" if "(of_char c :: nat) < 48 \<or> 57 < (of_char c :: nat)" for c
    using that by blast
  show "digit_char d \<noteq> CHR ''-''" "digit_char d \<noteq> CHR ''+''"
    "digit_char d \<noteq> CHR ''x''" "digit_char d \<noteq> CHR ''X''"
    by (rule ne, simp)+
qed

lemma white_space_first_byte:
  "w \<in> set white_space \<Longrightarrow> w \<noteq> [] \<and> ((of_char (hd w) :: nat) < 48 \<or> 57 < (of_char (hd w) :: nat))"
  by (auto simp: white_space_def)

lemma trimStart_digit:
  assumes "d < 10"
  shows "trimStart (digit_char d # cs) = digit_char d # cs"
proof -
  have "\<not> startsWith (digit_char d # cs) w" if "w \<in> set white_space" for w
  proof
    assume "startsWith (digit_char d # cs) w"
    moreover from white_space_first_byte [OF that] obtain c w' where w: "w = c # w'"
      and c: "(of_char c :: nat) < 48 \<or> 57 < (of_char c :: nat)"
      by (cases w) auto
    ultimately have "digit_char d = c" by (simp add: startsWith_def)
    with c of_char_digit_char [OF assms] assms show False by auto
  qed
  then have "find (\<lambda>w. startsWith (digit_char d # cs) w) white_space = None"
    by (simp add: find_None_iff)
  then show ?thesis by (simp add: trimStart.simps [of "digit_char d # cs"])
qed

lemma digit_value_digit_char: "d < 10 \<Longrightarrow> digit_value 10 (digit_char d) = Some d"
  by (simp add: digit_value_def of_char_digit_char Let_def)

lemma leading_digits_decimal:
  "\<exists>ds. string_of_nat n = map digit_char ds \<and> ds \<noteq> [] \<and> (\<forall>d\<in>set ds. d < 10) \<and> digits_value 10 ds = int n"
proof (induction n rule: string_of_nat.induct)
  case (1 n)
  show ?case
  proof (cases "n < 10")
    case True
    then show ?thesis
      by (intro exI [of _ "[n]"]) (simp add: digits_value_def string_of_nat.simps [of n])
  next
    case False
    from 1 [OF False] obtain ds where ds: "string_of_nat (n div 10) = map digit_char ds" "ds \<noteq> []"
      "\<forall>d\<in>set ds. d < 10" "digits_value 10 ds = int (n div 10)" by blast
    have "string_of_nat n = map digit_char (ds @ [n mod 10])"
      using False ds(1) by (subst string_of_nat.simps) simp
    moreover have "digits_value 10 (ds @ [n mod 10]) = int n"
      by (simp add: digits_value_snoc ds(4) zdiv_int zmod_int)
    ultimately show ?thesis using ds(2,3)
      by (intro exI [of _ "ds @ [n mod 10]"]) auto
  qed
qed

lemma leading_digits_map: "\<forall>d\<in>set ds. d < 10 \<Longrightarrow> leading_digits 10 (map digit_char ds) = ds"
  by (induction ds) (simp_all add: digit_value_digit_char)

lemma parseInt_plain:
  assumes "trimStart S = S" "S \<noteq> []" "hd S \<noteq> CHR ''-''" "hd S \<noteq> CHR ''+''"
    "take 2 S \<noteq> ''0x''" "take 2 S \<noteq> ''0X''" "leading_digits 10 S \<noteq> []"
  shows "parseInt S = number_of_int (digits_value 10 (leading_digits 10 S))"
  unfolding parseInt_def assms(1) Let_def
  by (simp only: assms simp_thms if_False if_True)

lemma parseInt_decimal: "parseInt (string_of_nat n) = number_of_int (int n)"
proof -
  from leading_digits_decimal [of n] obtain ds where ds: "string_of_nat n = map digit_char ds" "ds \<noteq> []"
      "\<forall>d\<in>set ds. d < 10" "digits_value 10 ds = int n" by blast
  from ds(2,3) obtain d ds' where c: "ds = d # ds'" "d < 10" by (cases ds) auto
  note sp = digit_char_not_special [OF c(2)]
  define S where "S = map digit_char ds"
  have S: "S = digit_char d # map digit_char ds'" by (simp add: S_def c)
  have ld: "leading_digits 10 S = ds" unfolding S_def by (rule leading_digits_map [OF ds(3)])
  have ts: "trimStart S = S" unfolding S by (rule trimStart_digit [OF c(2)])
  have nohex: "take 2 S \<noteq> ''0x''" "take 2 S \<noteq> ''0X''"
  proof -
    have "take 2 S \<noteq> ''0x'' \<and> take 2 S \<noteq> ''0X''"
    proof (cases ds')
      case Nil then show ?thesis by (simp add: S)
    next
      case (Cons e es)
      with ds(3) c have "e < 10" by simp
      from digit_char_not_special(3,4) [OF this] show ?thesis by (simp add: S Cons)
    qed
    then show "take 2 S \<noteq> ''0x''" "take 2 S \<noteq> ''0X''" by blast+
  qed
  have "parseInt S = number_of_int (digits_value 10 (leading_digits 10 S))"
    by (rule parseInt_plain) (use sp nohex ld ds(2) ts in \<open>simp_all add: S\<close>)
  then have "parseInt S = number_of_int (int n)" by (simp only: ld ds(4))
  then show ?thesis by (simp only: S_def ds(1) [symmetric])
qed

lemma excess_bits_small: "n < 2 ^ 53 \<Longrightarrow> excess_bits n = 0"
  by (simp add: excess_bits.simps [of n])

lemma number_of_int_exact:
  assumes "0 \<le> i" "i \<le> 2 ^ 53"
  shows "number_of_int i = Num i"
proof (cases "i < 2 ^ 53")
  case True
  then have "round_magnitude i = i"
    by (simp add: round_magnitude_def excess_bits_small)
  moreover have "i < 2 ^ 1024" using True by (rule less_trans) simp
  ultimately show ?thesis using assms(1) by (simp add: number_of_int_def)
next
  case False
  with assms(2) have i: "i = 2 ^ 53" by simp
  have "excess_bits ((2::int) ^ 53 div 2) = 0"
    by (rule excess_bits_small) simp
  moreover have "excess_bits ((2::int) ^ 53) = Suc (excess_bits (2 ^ 53 div 2))"
    by (subst excess_bits.simps) simp
  ultimately have "excess_bits (2 ^ 53) = Suc 0"
    by (simp only:)
  then have "round_magnitude (2 ^ 53) = 2 ^ 53"
    by (simp add: round_magnitude_def)
  then show ?thesis by (simp add: number_of_int_def i)
qed

lemma excess_bits_power_le: "0 < n \<Longrightarrow> 2 ^ excess_bits n \<le> n"
proof (induction n rule: excess_bits.induct)
  case (1 n)
  show ?case
  proof (cases "n < 2 ^ 53")
    case True
    with 1(2) show ?thesis by (simp add: excess_bits_small)
  next
    case False
    then have "0 < n div 2" by simp
    from 1(1) [OF False this] have "2 * 2 ^ excess_bits (n div 2) \<le> 2 * (n div 2)" by simp
    also have "\<dots> \<le> n" by simp
    finally show ?thesis using False by (simp add: excess_bits.simps [of n])
  qed
qed

lemma round_magnitude_pos: "0 < n \<Longrightarrow> 0 < round_magnitude n"
proof -
  assume n: "0 < n"
  let ?e = "excess_bits n"
  have "(2::int) ^ ?e div 2 ^ ?e \<le> n div 2 ^ ?e"
    by (rule zdiv_mono1) (use excess_bits_power_le [OF n] in simp_all)
  then have "1 \<le> n div 2 ^ ?e" by simp
  then have "0 < (if 2 ^ ?e < 2 * (n mod 2 ^ ?e) \<or> (2 * (n mod 2 ^ ?e) = 2 ^ ?e \<and> odd (n div 2 ^ ?e))
        then n div 2 ^ ?e + 1 else n div 2 ^ ?e)"
    by simp
  then show ?thesis by (simp add: round_magnitude_def Let_def)
qed

lemma number_of_int_pos:
  "0 < i \<Longrightarrow> number_of_int i = PosInfinity \<or> (\<exists>m. 0 < m \<and> number_of_int i = Num m)"
  using round_magnitude_pos [of i] by (simp add: number_of_int_def Let_def)


lemma parseInt_empty: "parseInt [] = NaN"
proof -
  have "find (\<lambda>w. startsWith [] w) white_space = None"
    by (simp add: find_None_iff white_space_def startsWith_def)
  then have "trimStart [] = []" by (simp add: trimStart.simps [of "[]"])
  then show ?thesis by (simp add: parseInt_def)
qed

text \<open>
  C7, as amended. The budget is the default 10 when \<^verbatim>\<open>--max-pages\<close> is not among the
  arguments, when it is the last argument, and when \<^verbatim>\<open>parseInt\<close> reads no integer at the
  start of the value that follows it (as for an empty value). When \<^verbatim>\<open>parseInt\<close> reads the
  value as a number other than zero, the budget is that number: for the decimal numeral of
  a positive \<open>k\<close> it is the floating-point number nearest to \<open>k\<close>, which is \<open>k\<close> itself up to
  \<open>2^53\<close>. The budget is negative exactly when \<^verbatim>\<open>parseInt\<close> reads a negative number.
\<close>

theorem maxPages_option_value:
  "(indexOf args ''--max-pages'' = None \<longrightarrow> maxPages_of_args args = Num 10) \<and>
   (\<forall>i. indexOf args ''--max-pages'' = Some i \<and> arg_at args (i + 1) = None \<longrightarrow>
      maxPages_of_args args = Num 10) \<and>
   (\<forall>i v. indexOf args ''--max-pages'' = Some i \<and> arg_at args (i + 1) = Some v \<longrightarrow>
      (parseInt v = NaN \<longrightarrow> maxPages_of_args args = Num 10) \<and>
      (parseInt v \<noteq> NaN \<and> parseInt v \<noteq> Num 0 \<longrightarrow> maxPages_of_args args = parseInt v) \<and>
      (\<forall>k. 0 < k \<and> v = string_of_nat k \<longrightarrow> maxPages_of_args args = number_of_int (int k)) \<and>
      (\<forall>k. 0 < k \<and> int k \<le> 2 ^ 53 \<and> v = string_of_nat k \<longrightarrow> maxPages_of_args args = Num (int k)) \<and>
      ((maxPages_of_args args = NegInfinity \<or> (\<exists>n. n < 0 \<and> maxPages_of_args args = Num n)) \<longleftrightarrow>
       (parseInt v = NegInfinity \<or> (\<exists>n. n < 0 \<and> parseInt v = Num n))))"
proof -
  have 1: "maxPages_of_args args = Num 10" if "indexOf args ''--max-pages'' = None"
    using that by (simp add: maxPages_of_args_def)
  have 2: "maxPages_of_args args = Num 10"
    if "indexOf args ''--max-pages'' = Some i" "arg_at args (i + 1) = None" for i
    using that by (simp add: maxPages_of_args_def)
  have 3: "(parseInt v = NaN \<longrightarrow> maxPages_of_args args = Num 10) \<and>
      (parseInt v \<noteq> NaN \<and> parseInt v \<noteq> Num 0 \<longrightarrow> maxPages_of_args args = parseInt v) \<and>
      (\<forall>k. 0 < k \<and> v = string_of_nat k \<longrightarrow> maxPages_of_args args = number_of_int (int k)) \<and>
      (\<forall>k. 0 < k \<and> int k \<le> 2 ^ 53 \<and> v = string_of_nat k \<longrightarrow> maxPages_of_args args = Num (int k)) \<and>
      ((maxPages_of_args args = NegInfinity \<or> (\<exists>n. n < 0 \<and> maxPages_of_args args = Num n)) \<longleftrightarrow>
       (parseInt v = NegInfinity \<or> (\<exists>n. n < 0 \<and> parseInt v = Num n)))"
    if iv: "indexOf args ''--max-pages'' = Some i" "arg_at args (i + 1) = Some v" for i v
  proof -
    have a: "maxPages_of_args args = Num 10" if "parseInt v = NaN"
      using that iv by (simp add: maxPages_of_args_def)
    have z: "maxPages_of_args args = Num 10" if "parseInt v = Num 0"
      using that iv by (simp add: maxPages_of_args_def)
    have b: "maxPages_of_args args = parseInt v" if "parseInt v \<noteq> NaN" "parseInt v \<noteq> Num 0"
    proof -
      from that(1) have "v \<noteq> []" using parseInt_empty by auto
      with that iv show ?thesis by (simp add: maxPages_of_args_def)
    qed
    have c: "maxPages_of_args args = number_of_int (int k)" if "0 < k" "v = string_of_nat k" for k
    proof -
      from that(1) have "0 < int k" by simp
      from number_of_int_pos [OF this]
      have "number_of_int (int k) \<noteq> NaN" "number_of_int (int k) \<noteq> Num 0" by auto
      with b show ?thesis by (simp add: that(2) parseInt_decimal)
    qed
    have d: "maxPages_of_args args = Num (int k)" if "0 < k" "int k \<le> 2 ^ 53" "v = string_of_nat k" for k
      using c [OF that(1,3)] number_of_int_exact [of "int k"] that(2) by simp
    have e: "(maxPages_of_args args = NegInfinity \<or> (\<exists>n. n < 0 \<and> maxPages_of_args args = Num n)) \<longleftrightarrow>
       (parseInt v = NegInfinity \<or> (\<exists>n. n < 0 \<and> parseInt v = Num n))"
    proof (cases "parseInt v = NaN \<or> parseInt v = Num 0")
      case True
      then have "maxPages_of_args args = Num 10" using a z by blast
      with True show ?thesis by auto
    next
      case False
      with b have "maxPages_of_args args = parseInt v" by blast
      then show ?thesis by simp
    qed
    from a b c d e show ?thesis by blast
  qed
  from 1 2 3 show ?thesis by blast
qed

theorem maxPages_option_value_witness:
  "maxPages_of_args [''https://example.com'', ''--max-pages'', ''20'', ''--output'', ''r.md''] = Num 20 \<and>
   maxPages_of_args [''https://example.com'', ''--max-pages'', ''many''] = Num 10 \<and>
   maxPages_of_args [''https://example.com''] = Num 10 \<and>
   maxPages_of_args [''https://example.com'', ''--max-pages''] = Num 10 \<and>
   maxPages_of_args [''https://example.com'', ''--max-pages'', ''9007199254740993''] =
     Num 9007199254740992 \<and>
   maxPages_of_args [''https://example.com'', ''--max-pages'', [CHR 0xC2, CHR 0xA0] @ ''42''] = Num 42 \<and>
   maxPages_of_args [''https://example.com'', ''--max-pages'', replicate 310 (CHR ''9'')] = PosInfinity"
proof -
  have absent: "maxPages_of_args args = Num 10" if "indexOf args ''--max-pages'' = None" for args
    using maxPages_option_value [of args] that by blast
  have last: "maxPages_of_args args = Num 10"
    if "indexOf args ''--max-pages'' = Some i" "arg_at args (i + 1) = None" for args i
    using maxPages_option_value [of args] that by blast
  have nan: "maxPages_of_args args = Num 10"
    if "indexOf args ''--max-pages'' = Some i" "arg_at args (i + 1) = Some v" "parseInt v = NaN" for args i v
    using maxPages_option_value [of args] that by blast
  have num: "maxPages_of_args args = parseInt v"
    if "indexOf args ''--max-pages'' = Some i" "arg_at args (i + 1) = Some v"
      "parseInt v \<noteq> NaN" "parseInt v \<noteq> Num 0" for args i v
    using maxPages_option_value [of args] that by blast
  have p: "parseInt ''20'' = Num 20" "parseInt ''many'' = NaN"
    "parseInt ''9007199254740993'' = Num 9007199254740992"
    "parseInt ([CHR 0xC2, CHR 0xA0] @ ''42'') = Num 42"
    "parseInt (replicate 310 (CHR ''9'')) = PosInfinity"
    by code_simp+
  have 1: "maxPages_of_args [''https://example.com'', ''--max-pages'', ''20'', ''--output'', ''r.md''] = Num 20"
    by (subst num [of _ 1 "''20''"]) (simp_all add: arg_at_def p)
  have 2: "maxPages_of_args [''https://example.com'', ''--max-pages'', ''many''] = Num 10"
    by (rule nan [of _ 1 "''many''"]) (simp_all add: arg_at_def p)
  have 3: "maxPages_of_args [''https://example.com''] = Num 10"
    by (rule absent) simp
  have 4: "maxPages_of_args [''https://example.com'', ''--max-pages''] = Num 10"
    by (rule last [of _ 1]) (simp_all add: arg_at_def)
  have 5: "maxPages_of_args [''https://example.com'', ''--max-pages'', ''9007199254740993''] =
     Num 9007199254740992"
    by (subst num [of _ 1 "''9007199254740993''"]) (simp_all add: arg_at_def p)
  have 6: "maxPages_of_args [''https://example.com'', ''--max-pages'', [CHR 0xC2, CHR 0xA0] @ ''42''] = Num 42"
    by (subst num [of _ 1 "[CHR 0xC2, CHR 0xA0] @ ''42''"]) (simp_all add: arg_at_def p [simplified])
  have 7: "maxPages_of_args [''https://example.com'', ''--max-pages'', replicate 310 (CHR ''9'')] = PosInfinity"
    by (subst num [of _ 1 "replicate 310 (CHR ''9'')"]) (simp_all only: indexOf.simps arg_at_def p, simp_all)
  from 1 2 3 4 5 6 7 show ?thesis by blast
qed

theorem maxPages_option_counterexample:
  "main_args [''https://example.com'', ''--max-pages'', ''-5''] = Some (''https://example.com'', Num (- 5)) \<and>
   main_args [''https://example.com'', ''--max-pages'', ''0''] = Some (''https://example.com'', Num 10) \<and>
   main_args [''https://example.com'', ''--max-pages'', ''12abc''] = Some (''https://example.com'', Num 12)"
  by code_simp

section \<open>Cleanup\<close>




section \<open>Severity groups\<close>

lemma group_sizes:
  "length (filter (\<lambda>v. impact v = Impact ''critical'') vs) +
   length (filter (\<lambda>v. impact v = Impact ''serious'') vs) +
   length (filter (\<lambda>v. impact v = Impact ''moderate'') vs) +
   length (filter (\<lambda>v. impact v = Impact ''minor'') vs) =
   length (filter (\<lambda>v. impact v \<in> {Impact ''critical'', Impact ''serious'', Impact ''moderate'', Impact ''minor''}) vs)"
  by (induction vs) auto

text \<open>
  C4, as amended. The groups are keyed critical, serious, moderate, minor, in this order.
  A group holds exactly the violations of the page whose impact is its key. So a violation
  whose impact is one of the four levels appears in exactly one group, the group counts sum
  to the number of violations with one of the four levels, and they sum to the page's
  total when every violation of the page carries one of the four levels.
\<close>

theorem severity_groups_partition_recognised:
  "map fst (byImpact vs) = [''critical'', ''serious'', ''moderate'', ''minor''] \<and>
   (\<forall>g\<in>set (byImpact vs). \<forall>v. v \<in> set (snd g) \<longleftrightarrow> v \<in> set vs \<and> impact v = Impact (fst g)) \<and>
   (\<forall>v\<in>set vs.
      impact v \<in> {Impact ''critical'', Impact ''serious'', Impact ''moderate'', Impact ''minor''} \<longrightarrow>
      length (filter (\<lambda>g. v \<in> set (snd g)) (byImpact vs)) = 1) \<and>
   sum_list (map (\<lambda>g. length (snd g)) (byImpact vs)) =
     length (filter (\<lambda>v. impact v \<in> {Impact ''critical'', Impact ''serious'', Impact ''moderate'', Impact ''minor''}) vs) \<and>
   ((\<forall>v\<in>set vs. impact v \<in> {Impact ''critical'', Impact ''serious'', Impact ''moderate'', Impact ''minor''}) \<longrightarrow>
      sum_list (map (\<lambda>g. length (snd g)) (byImpact vs)) = length vs)"
proof -
  have 1: "map fst (byImpact vs) = [''critical'', ''serious'', ''moderate'', ''minor'']"
    by (simp add: byImpact_def)
  have 2: "\<forall>g\<in>set (byImpact vs). \<forall>v. v \<in> set (snd g) \<longleftrightarrow> v \<in> set vs \<and> impact v = Impact (fst g)"
    by (simp add: byImpact_def)
  have 3: "sum_list (map (\<lambda>g. length (snd g)) (byImpact vs)) =
     length (filter (\<lambda>v. impact v \<in> {Impact ''critical'', Impact ''serious'', Impact ''moderate'', Impact ''minor''}) vs)"
    using group_sizes [of vs] by (simp add: byImpact_def)
  have 4: "sum_list (map (\<lambda>g. length (snd g)) (byImpact vs)) = length vs"
    if "\<forall>v\<in>set vs. impact v \<in> {Impact ''critical'', Impact ''serious'', Impact ''moderate'', Impact ''minor''}"
  proof -
    from that have "filter (\<lambda>v. impact v \<in> {Impact ''critical'', Impact ''serious'', Impact ''moderate'', Impact ''minor''}) vs = vs"
      by (simp only: filter_True)
    with 3 show ?thesis by simp
  qed
  have 5: "\<forall>v\<in>set vs.
      impact v \<in> {Impact ''critical'', Impact ''serious'', Impact ''moderate'', Impact ''minor''} \<longrightarrow>
      length (filter (\<lambda>g. v \<in> set (snd g)) (byImpact vs)) = 1"
    by (auto simp: byImpact_def)
  from 1 2 3 4 5 show ?thesis by blast
qed


theorem severity_groups_partition_recognised_witness:
  "sum_list (map (\<lambda>g. length (snd g))
      (byImpact [example_violation (Impact ''serious''), example_violation (Impact ''critical''),
                 example_violation (Impact ''serious'')])) = 3 \<and>
   map (\<lambda>g. length (snd g))
      (byImpact [example_violation (Impact ''serious''), example_violation (Impact ''critical''),
                 example_violation (Impact ''serious'')]) = [1, 2, 0, 0]"
proof -
  have h: "\<forall>v\<in>set [example_violation (Impact ''serious''), example_violation (Impact ''critical''),
                 example_violation (Impact ''serious'')].
      impact v \<in> {Impact ''critical'', Impact ''serious'', Impact ''moderate'', Impact ''minor''}"
    by (simp add: example_violation_def)
  have c: "map (\<lambda>g. length (snd g))
      (byImpact [example_violation (Impact ''serious''), example_violation (Impact ''critical''),
                 example_violation (Impact ''serious'')]) = [1, 2, 0, 0]"
    by (simp add: byImpact_def example_violation_def)
  from severity_groups_partition_recognised
    [of "[example_violation (Impact ''serious''), example_violation (Impact ''critical''),
          example_violation (Impact ''serious'')]"] h c
  show ?thesis by simp
qed

theorem severity_groups_unrecognised_counterexample:
  "sum_list (map (\<lambda>g. length (snd g))
      (byImpact [example_violation Null, example_violation (Impact ''critical'')])) \<noteq>
     length [example_violation Null, example_violation (Impact ''critical'')] \<and>
   \<not> (\<exists>g\<in>set (byImpact [example_violation Null, example_violation (Impact ''critical'')]).
        example_violation Null \<in> set (snd g)) \<and>
   \<not> (\<exists>g\<in>set (byImpact [example_violation (Impact ''blocker'')]).
        example_violation (Impact ''blocker'') \<in> set (snd g)) \<and>
   render_axe \<lparr>violations = [example_violation Null]\<rparr> = ''### Axe-core Violations (1)'' @ nl @ nl"
proof -
  have one: "string_of_nat (Suc 0) = ''1''"
    by code_simp
  show ?thesis
    by (simp add: byImpact_def example_violation_def render_axe_def render_group_def one)
qed

section \<open>Determinism of the report\<close>

text \<open>
  C5, as amended. For a fixed session, the report depends on the wall clock through the line
  \<^verbatim>\<open>**Generated:**\<close> alone: whatever the clock reads when the report is generated, the
  report is the title, that line with the reading rendered, and a remainder which is the
  same for every reading.
\<close>

theorem report_varies_with_clock_only_in_generated_line:
  "\<exists>body. \<forall>now.
     generateMarkdownReport R now st =
       ''# Accessibility Report'' @ nl @ nl @ ''**Generated:** '' @ toLocaleString R now @ nl @ body"
  unfolding generateMarkdownReport_def
  by (rule exI [of _ "''**Pages Analyzed:** '' @ string_of_nat (length (results st)) @ nl @ nl @
     render_summary R (results st) @ concat (map (render_page R) (results st))"]) simp

theorem report_wall_clock_counterexample:
  "generateMarkdownReport example_runtime clock_first (example_session 3) \<noteq>
   generateMarkdownReport example_runtime clock_second (example_session 3)"
  by (simp add: generateMarkdownReport_def example_runtime_def clock_first_def clock_second_def)


end
